theory Spec2Isabelle
  imports Main
begin

section \<open>Strings, integers and exceptions of the host language\<close>

text \<open>
  The add-on is Python. A Python \<open>str\<close> is modelled as a \<open>string\<close> whose characters
  stand for the code points 0 to 255; in that range the regular-expression class
  \<open>\d\<close> is exactly the ten ASCII digits, and the characters removed by
  \<open>str.strip()\<close> are the code points listed in \<open>py_isspace\<close>. Python integers are
  unbounded and modelled as \<open>int\<close>. Every exception the code can raise is a value of
  \<open>exn\<close>; \<open>KeyboardInterrupt\<close> stands for the exceptions that are not subclasses of
  \<open>Exception\<close>.
\<close>

datatype exn = ValueError | IndexError | TypeError | AttributeError | KeyboardInterrupt

definition is_Exception :: "exn \<Rightarrow> bool" where
  "is_Exception e = (e \<noteq> KeyboardInterrupt)"

definition newline :: char where
  "newline = CHR 0x0A"

definition is_digit :: "char \<Rightarrow> bool" where
  "is_digit c = (c \<in> set ''0123456789'')"

definition digit_val :: "char \<Rightarrow> nat" where
  "digit_val c = of_char c - 48"

definition digits_val :: "string \<Rightarrow> nat" where
  "digits_val ds = foldl (\<lambda>a c. 10 * a + digit_val c) 0 ds"

definition py_isspace :: "char \<Rightarrow> bool" where
  "py_isspace c = ((of_char c :: nat) \<in> {9, 10, 11, 12, 13, 28, 29, 30, 31, 32, 133, 160})"

definition py_strip :: "string \<Rightarrow> string" where
  "py_strip s = rev (dropWhile py_isspace (rev (dropWhile py_isspace s)))"

definition startswith :: "string \<Rightarrow> string \<Rightarrow> bool" where
  "startswith s p = (take (length p) s = p)"

definition endswith :: "string \<Rightarrow> string \<Rightarrow> bool" where
  "endswith s p = (length p \<le> length s \<and> drop (length s - length p) s = p)"

text \<open>
  \<open>int(s)\<close> on a string: surrounding whitespace is dropped, one sign is allowed, and the
  rest is a run of digits in which single underscores may separate digits. Anything else
  raises \<open>ValueError\<close>.
\<close>

fun int_body_ok :: "string \<Rightarrow> bool" where
  "int_body_ok [] = False"
| "int_body_ok [c] = is_digit c"
| "int_body_ok (c # d # r) =
     (is_digit c \<and> (if d = CHR ''_'' then int_body_ok r else int_body_ok (d # r)))"

definition py_int :: "string \<Rightarrow> exn + int" where
  "py_int s =
     (let t = py_strip s;
          neg = (t \<noteq> [] \<and> hd t = CHR ''-'');
          u = (if t \<noteq> [] \<and> (hd t = CHR ''-'' \<or> hd t = CHR ''+'') then tl t else t)
      in if int_body_ok u
         then Inr ((if neg then - 1 else 1) * int (digits_val (filter (\<lambda>c. c \<noteq> CHR ''_'') u)))
         else Inl ValueError)"

text \<open>\<open>str(n)\<close> of an integer: decimal digits, with a minus sign when negative.\<close>

fun str_nat :: "nat \<Rightarrow> string" where
  "str_nat n =
     (if n < 10 then [''0123456789'' ! n]
      else str_nat (n div 10) @ [''0123456789'' ! (n mod 10)])"

definition py_str :: "int \<Rightarrow> string" where
  "py_str i = (if i < 0 then CHR ''-'' # str_nat (nat (- i)) else str_nat (nat i))"

text \<open>
  \<open>xs[i]\<close> on a list: positions \<open>0\<close> to \<open>len(xs) - 1\<close> are read directly, positions
  \<open>-len(xs)\<close> to \<open>-1\<close> are read from the back, every other position raises.
\<close>

definition py_nth :: "'a list \<Rightarrow> int \<Rightarrow> exn + 'a" where
  "py_nth xs i =
     (if 0 \<le> i \<and> i < int (length xs) then Inr (xs ! nat i)
      else if i < 0 \<and> - i \<le> int (length xs) then Inr (xs ! nat (int (length xs) + i))
      else Inl IndexError)"

section \<open>The marker scanner\<close>

text \<open>
  \<open>get_cloze_nums\<close> applies \<open>re.findall\<close> with the pattern
  \<^verbatim>\<open>\(\(c(\d+)::.+?\)\)\<close>. \<open>lazy_close\<close> is the rest of the lazy \<open>.+?\<close> after its
  first character: it stops at the first \<open>))\<close> and fails at a line break, which \<open>.\<close>
  does not match. \<open>match_at\<close> tries the pattern at the start of a string and gives the
  digit group and the text after the match; the digit run is the maximal one, because the
  pattern continues with a colon. \<open>findall\<close> collects the groups of the non-overlapping
  matches from left to right.
\<close>

fun lazy_close :: "string \<Rightarrow> string option" where
  "lazy_close [] = None"
| "lazy_close (c # cs) =
     (if startswith (c # cs) ''))'' then Some (drop 2 (c # cs))
      else if c = newline then None
      else lazy_close cs)"

definition match_at :: "string \<Rightarrow> (string \<times> string) option" where
  "match_at s =
     (if startswith s ''((c'' then
        (let s1 = drop 3 s; ds = takeWhile is_digit s1; s2 = dropWhile is_digit s1
         in if ds \<noteq> [] \<and> startswith s2 ''::'' then
              (case drop 2 s2 of
                 [] \<Rightarrow> None
               | c # s4 \<Rightarrow>
                   if c = newline then None
                   else (case lazy_close s4 of
                           None \<Rightarrow> None
                         | Some rest \<Rightarrow> Some (ds, rest)))
            else None)
      else None)"

lemma lazy_close_length: "lazy_close s = Some r \<Longrightarrow> length r < length s"
  by (induction s) (auto split: if_splits)

lemma match_at_length: "match_at s = Some (ds, r) \<Longrightarrow> length r < length s"
proof -
  assume m: "match_at s = Some (ds, r)"
  then obtain c s4 where d: "drop 2 (dropWhile is_digit (drop 3 s)) = c # s4"
      and l: "lazy_close s4 = Some r"
    by (auto simp: match_at_def Let_def split: if_splits list.splits option.splits)
  have "length s4 < length (dropWhile is_digit (drop 3 s))"
    using arg_cong [OF d, of length] by simp
  also have "\<dots> \<le> length (drop 3 s)"
    by (rule length_dropWhile_le)
  also have "\<dots> \<le> length s"
    by simp
  finally show ?thesis
    using lazy_close_length [OF l] by simp
qed

function findall :: "string \<Rightarrow> string list" where
  "findall [] = []"
| "findall (c # cs) =
     (case match_at (c # cs) of
        Some (ds, rest) \<Rightarrow> ds # findall rest
      | None \<Rightarrow> findall cs)"
  by pat_completeness auto
termination
  by (relation "measure length") (auto dest: match_at_length)

text \<open>Lines 34 to 40: the set comprehension calls \<open>int\<close> on every group.\<close>

fun int_all :: "string list \<Rightarrow> exn + int list" where
  "int_all [] = Inr []"
| "int_all (x # xs) =
     (case py_int x of
        Inl e \<Rightarrow> Inl e
      | Inr n \<Rightarrow> (case int_all xs of Inl e \<Rightarrow> Inl e | Inr ns \<Rightarrow> Inr (n # ns)))"

definition get_cloze_nums :: "string \<Rightarrow> exn + int set" where
  "get_cloze_nums content =
     (let m = findall content
      in if m \<noteq> [] then (case int_all m of Inl e \<Rightarrow> Inl e | Inr ns \<Rightarrow> Inr (set ns))
         else Inr {})"

section \<open>Schema, notes and the editor\<close>

text \<open>
  A model's \<open>flds\<close> is the ordered list of field descriptors (name and ordinal); of a
  template only its \<open>qfmt\<close> is read. A note holds its identity, its field values by
  ordinal, and its model. The editor holds the open note (or none), the focused field,
  and what has been sent to the host so far: every \<open>web.eval\<close> call as the list of
  commands joined into it, and every \<open>tooltip\<close> text.
\<close>

record field =
  fname :: string
  ford :: nat

record Model =
  flds :: "field list"
  tmpls :: "string list"

record Note =
  nid :: int
  nfields :: "string list"
  model :: Model

text \<open>
  The JavaScript commands of the source, by what they carry:
  \<open>Wrap a b\<close> is \<^verbatim>\<open>wrap('a', 'b')\<close>, \<open>SetHtml i v\<close> is
  \<^verbatim>\<open>$("#f" + i).html(json.dumps(v))\<close> and \<open>SetFormat v\<close> is
  \<^verbatim>\<open>setFormat('inserthtml', json.dumps(v))\<close>.
\<close>

datatype js = Wrap string string | SetHtml nat string | SetFormat string

record Editor =
  ed_note :: "Note option"
  currentField :: "nat option"
  web :: "js list list"
  tips :: "string list"

text \<open>
  The host editor's \<open>mungeHTML\<close> is not part of the add-on; \<open>update_cloze_fields\<close>
  takes it as the parameter \<open>munge\<close>. The host's implementation maps the two
  line-break placeholders to the empty string and is used for concrete runs.
\<close>

definition mungeHTML :: "string \<Rightarrow> string" where
  "mungeHTML txt = (if txt \<in> {''<br>'', ''<div><br></div>''} then [] else txt)"

section \<open>The field reconciler of the interactive paths\<close>

text \<open>
  \<open>cloze_field_match n name\<close> is \<open>cloze_field_regex.match(name)\<close> for the pattern
  \<^verbatim>\<open>"^" + re.escape(n) + r"(\d+)$"\<close>: the name is \<open>n\<close> followed by a non-empty
  digit run, which \<open>$\<close> lets end the name or stand before one final line break. The
  result is the digit group.
\<close>

definition cloze_field_match :: "string \<Rightarrow> string \<Rightarrow> string option" where
  "cloze_field_match cloze_field_name name =
     (if startswith name cloze_field_name then
        (let r = drop (length cloze_field_name) name;
             ds = (if r \<noteq> [] \<and> last r = newline then butlast r else r)
         in if ds \<noteq> [] \<and> list_all is_digit ds then Some ds else None)
      else None)"

text \<open>
  Lines 68 to 85. The loop state is the note's field values, the commands and the
  identifiers found; an exception leaves the field values as mutated so far.
\<close>

fun update_cloze_fields_loop ::
  "(string \<Rightarrow> string) \<Rightarrow> int set \<Rightarrow> string \<Rightarrow> field list \<Rightarrow> string list \<Rightarrow> js list \<Rightarrow> int set
     \<Rightarrow> (exn \<times> string list) + (js list \<times> int set \<times> string list)" where
  "update_cloze_fields_loop munge cloze_nums cloze_field_name [] fs commands found =
     Inr (commands, found, fs)"
| "update_cloze_fields_loop munge cloze_nums cloze_field_name (f # rest) fs commands found =
     (case cloze_field_match cloze_field_name (fname f) of
        None \<Rightarrow> update_cloze_fields_loop munge cloze_nums cloze_field_name rest fs commands found
      | Some g \<Rightarrow>
          (case py_int g of
             Inl e \<Rightarrow> Inl (e, fs)
           | Inr cloze_num \<Rightarrow>
               (let field_content = (if cloze_num \<in> cloze_nums then ''1'' else ''<br>'')
                in if ford f < length fs then
                     (if py_strip (fs ! ford f) \<in> {''1'', []} then
                        update_cloze_fields_loop munge cloze_nums cloze_field_name rest
                          (fs[ford f := munge field_content])
                          (commands @ [SetHtml (ford f) field_content])
                          (insert cloze_num found)
                      else
                        update_cloze_fields_loop munge cloze_nums cloze_field_name rest
                          fs commands (insert cloze_num found))
                   else Inl (IndexError, fs))))"

definition update_cloze_fields ::
  "(string \<Rightarrow> string) \<Rightarrow> int set \<Rightarrow> string \<Rightarrow> field list \<Rightarrow> string list
     \<Rightarrow> (exn \<times> string list) + (js list \<times> int set \<times> string list)" where
  "update_cloze_fields munge cloze_nums cloze_field_name model_flds fs =
     update_cloze_fields_loop munge cloze_nums cloze_field_name model_flds fs [] {}"

section \<open>The insert-marker entry point\<close>

text \<open>
  \<open>cloze_tmpl_search\<close> is \<^verbatim>\<open>re.search('{{(.*:)*cloze:', qfmt)\<close> as a truth value:
  somewhere \<open>{{\<close> is followed by \<open>cloze:\<close>, possibly after a run without line breaks
  that ends in a colon.
\<close>

fun colon_chain :: "string \<Rightarrow> bool" where
  "colon_chain [] = False"
| "colon_chain (c # cs) =
     ((c = CHR '':'' \<and> (startswith cs ''cloze:'' \<or> colon_chain cs))
      \<or> (c \<noteq> newline \<and> colon_chain cs))"

fun cloze_tmpl_search :: "string \<Rightarrow> bool" where
  "cloze_tmpl_search [] = False"
| "cloze_tmpl_search (c # cs) =
     ((startswith (c # cs) ''{{''
        \<and> (startswith (drop 2 (c # cs)) ''cloze:'' \<or> colon_chain (drop 2 (c # cs))))
      \<or> cloze_tmpl_search cs)"

text \<open>Lines 102 to 108; \<open>alt\<close> says that the Alt modifier is held.\<close>

definition next_cloze_num :: "int set \<Rightarrow> bool \<Rightarrow> int" where
  "next_cloze_num cloze_nums alt =
     (if cloze_nums \<noteq> {} then (if \<not> alt then Max cloze_nums + 1 else Max cloze_nums)
      else 1)"

fun join_comma :: "string list \<Rightarrow> string" where
  "join_comma [] = []"
| "join_comma [x] = x"
| "join_comma (x # y # r) = x @ '', '' @ join_comma (y # r)"

definition missing_names :: "string \<Rightarrow> int set \<Rightarrow> string list" where
  "missing_names current_field_name missing_cloze_num =
     map (\<lambda>n. current_field_name @ py_str n) (sorted_list_of_set missing_cloze_num)"

definition find_ord :: "field list \<Rightarrow> string \<Rightarrow> nat option" where
  "find_ord model_flds name = map_option ford (find (\<lambda>f. fname f = name) model_flds)"

datatype outcome = CalledOld | Handled

text \<open>Lines 98 to 127: the focused field is not empty and its name ends in Cloze.\<close>

definition onCloze_fill ::
  "(string \<Rightarrow> string) \<Rightarrow> bool \<Rightarrow> Editor \<Rightarrow> Note \<Rightarrow> string \<Rightarrow> string
     \<Rightarrow> (exn \<times> Editor) + (outcome \<times> Editor)" where
  "onCloze_fill munge alt ed n current_field_name content =
     (case get_cloze_nums content of
        Inl e \<Rightarrow> Inl (e, ed)
      | Inr scanned \<Rightarrow>
          (let next = next_cloze_num scanned alt;
               commands = [Wrap (''((c'' @ py_str next @ ''::'') ''))''];
               cloze_nums = insert next scanned
           in case update_cloze_fields munge cloze_nums current_field_name
                     (flds (model n)) (nfields n) of
                Inl (e, fs') \<Rightarrow> Inl (e, ed\<lparr>ed_note := Some (n\<lparr>nfields := fs'\<rparr>)\<rparr>)
              | Inr (cloze_field_update_commands, found_cloze_nums, fs') \<Rightarrow>
                  (let missing_cloze_num = cloze_nums - found_cloze_nums;
                       ed1 = ed\<lparr>ed_note := Some (n\<lparr>nfields := fs'\<rparr>),
                                web := web ed @ [commands @ cloze_field_update_commands]\<rparr>
                   in if missing_cloze_num \<noteq> {} then
                        Inr (Handled, ed1\<lparr>tips := tips ed1 @
                          [''Not enough cloze fields.  Missing: '' @
                             join_comma (missing_names current_field_name missing_cloze_num)]\<rparr>)
                      else Inr (Handled, ed1))))"

text \<open>Lines 135 to 146: the focused field is empty.\<close>

definition onCloze_copy ::
  "Editor \<Rightarrow> Note \<Rightarrow> string \<Rightarrow> (exn \<times> Editor) + (outcome \<times> Editor)" where
  "onCloze_copy ed n current_field_name =
     (if endswith current_field_name ''Cloze'' then
        (let other_field_name = take (length current_field_name - 5) current_field_name
         in case find_ord (flds (model n)) other_field_name of
              Some other_field_name_ord \<Rightarrow>
                (if other_field_name_ord < length (nfields n) then
                   Inr (Handled, ed\<lparr>web := web ed @
                          [[SetFormat (nfields n ! other_field_name_ord)]]\<rparr>)
                 else Inl (IndexError, ed))
            | None \<Rightarrow>
                Inr (Handled, ed\<lparr>tips := tips ed @
                  [''Cannot populate empty field '' @ current_field_name @
                   '' because other field '' @ other_field_name @
                   '' was not found to copy from'']\<rparr>))
      else
        Inr (Handled, ed\<lparr>tips := tips ed @
          [''Cannot populate empty field '' @ current_field_name @
           '' because name does not end in Cloze'']\<rparr>))"

text \<open>
  Lines 88 to 146. The result says whether the host's own implementation was called
  instead (\<open>CalledOld\<close>); an exception is not caught here and reaches the host.
\<close>

definition onCloze ::
  "(string \<Rightarrow> string) \<Rightarrow> bool \<Rightarrow> Editor \<Rightarrow> (exn \<times> Editor) + (outcome \<times> Editor)" where
  "onCloze munge alt ed =
     (case ed_note ed of
        None \<Rightarrow> Inl (AttributeError, ed)
      | Some n \<Rightarrow>
          (case tmpls (model n) of
             [] \<Rightarrow> Inl (IndexError, ed)
           | qfmt # _ \<Rightarrow>
               if cloze_tmpl_search qfmt then Inr (CalledOld, ed)
               else
                 (case currentField ed of
                    None \<Rightarrow> Inl (TypeError, ed)
                  | Some cf \<Rightarrow>
                      if length (nfields n) \<le> cf then Inl (IndexError, ed)
                      else if length (flds (model n)) \<le> cf then Inl (IndexError, ed)
                      else if nfields n ! cf \<noteq> [] then
                        (let current_field_name = fname (flds (model n) ! cf)
                         in if endswith current_field_name ''Cloze'' then
                              onCloze_fill munge alt ed n current_field_name (nfields n ! cf)
                            else
                              Inr (Handled, ed\<lparr>tips := tips ed @
                                [''Cannot cloze unless field ends in name Cloze'']\<rparr>))
                      else onCloze_copy ed n (fname (flds (model n) ! cf)))))"

section \<open>The live text-change handler\<close>

text \<open>\<open>s.split(sep, k)\<close>: at most \<open>k\<close> splits, from the left.\<close>

fun py_split :: "char \<Rightarrow> nat \<Rightarrow> string \<Rightarrow> string list" where
  "py_split sep 0 s = [s]"
| "py_split sep (Suc k) s =
     (if sep \<in> set s then
        takeWhile (\<lambda>c. c \<noteq> sep) s # py_split sep k (tl (dropWhile (\<lambda>c. c \<noteq> sep) s))
      else [s])"

text \<open>
  Lines 160 to 176, the body of the \<open>try\<close>. Unpacking the split into four names raises
  \<open>ValueError\<close> when there are fewer parts; a note identity that does not parse counts
  as none; an identity of zero is falsy.
\<close>

definition onBridgeCmd_try ::
  "(string \<Rightarrow> string) \<Rightarrow> Editor \<Rightarrow> string \<Rightarrow> (exn \<times> Editor) + Editor" where
  "onBridgeCmd_try munge ed cmd =
     (case ed_note ed of
        None \<Rightarrow> Inr ed
      | Some n \<Rightarrow>
          if startswith cmd ''blur:'' \<or> startswith cmd ''key:'' then
            (case py_split (CHR '':'') 3 cmd of
               [_, field_idx_s, nid_s, content] \<Rightarrow>
                 (case py_int field_idx_s of
                    Inl e \<Rightarrow> Inl (e, ed)
                  | Inr field_idx \<Rightarrow>
                      (let nid_opt = (case py_int nid_s of Inl e \<Rightarrow> None | Inr v \<Rightarrow> Some v)
                       in if nid_opt \<noteq> None \<and> nid_opt \<noteq> Some 0 \<and> nid_opt = Some (nid n) then
                            (case py_nth (flds (model n)) field_idx of
                               Inl e \<Rightarrow> Inl (e, ed)
                             | Inr f \<Rightarrow>
                                 if endswith (fname f) ''Cloze'' then
                                   (case get_cloze_nums content of
                                      Inl e \<Rightarrow> Inl (e, ed)
                                    | Inr cloze_nums \<Rightarrow>
                                        (case update_cloze_fields munge cloze_nums (fname f)
                                                (flds (model n)) (nfields n) of
                                           Inl (e, fs') \<Rightarrow>
                                             Inl (e, ed\<lparr>ed_note := Some (n\<lparr>nfields := fs'\<rparr>)\<rparr>)
                                         | Inr (commands, found, fs') \<Rightarrow>
                                             Inr (ed\<lparr>ed_note := Some (n\<lparr>nfields := fs'\<rparr>),
                                                     web := web ed @ [commands]\<rparr>)))
                                 else Inr ed)
                          else Inr ed))
             | _ \<Rightarrow> Inl (ValueError, ed))
          else Inr ed)"

text \<open>
  Lines 149 to 181. \<open>except Exception\<close> catches the subclasses of \<open>Exception\<close> and
  nothing else; after the \<open>try\<close> statement the host's handler \<open>old\<close> runs on the editor
  as the body left it.
\<close>

definition onBridgeCmd ::
  "(string \<Rightarrow> string) \<Rightarrow> (Editor \<Rightarrow> string \<Rightarrow> (exn \<times> Editor) + Editor) \<Rightarrow> Editor \<Rightarrow> string
     \<Rightarrow> (exn \<times> Editor) + Editor" where
  "onBridgeCmd munge old ed cmd =
     (case onBridgeCmd_try munge ed cmd of
        Inl (e, ed') \<Rightarrow> if is_Exception e then old ed' cmd else Inl (e, ed')
      | Inr ed' \<Rightarrow> old ed' cmd)"

section \<open>The batch operations\<close>

text \<open>
  A batch operation is run on the notes that \<open>getNote\<close> loads for the selected
  identifiers, in order, and is modelled by the host calls it makes, in order:
  \<open>Flush i fs\<close> is \<open>note.flush()\<close> on the note \<open>i\<close> holding the field values \<open>fs\<close>. An
  exception ends the operation; the calls made until then stay made.
\<close>

datatype event =
  Checkpoint string | BeginReset | Flush int "string list" | RequireReset
  | Tooltip string | EndReset

definition updated_msg :: "nat \<Rightarrow> string" where
  "updated_msg update_count =
     ''Updated '' @ py_str (int update_count) @ '' '' @
       (if update_count \<noteq> 1 then ''notes'' else ''note'')"

definition checkpoint_msg :: "string \<Rightarrow> nat \<Rightarrow> string" where
  "checkpoint_msg name n =
     name @ '' ('' @ py_str (int n) @ '' '' @ (if 1 < n then ''notes'' else ''note'') @ '')''"

text \<open>Lines 201 to 218: the fields of one note, in auto-cloze.\<close>

fun auto_cloze_note ::
  "field list \<Rightarrow> int \<Rightarrow> field list \<Rightarrow> string list \<Rightarrow> nat \<Rightarrow> event list
     \<Rightarrow> (exn \<times> event list) + (string list \<times> nat \<times> event list)" where
  "auto_cloze_note model_flds i [] fs update_count evs = Inr (fs, update_count, evs)"
| "auto_cloze_note model_flds i (f # rest) fs update_count evs =
     (if endswith (fname f) ''Cloze'' then
        (if ford f < length fs then
           (if py_strip (fs ! ford f) = [] then
              (let other_field_name = take (length (fname f) - 5) (fname f)
               in case (find_ord model_flds other_field_name,
                        find_ord model_flds (fname f @ ''1'')) of
                    (Some other_field_name_ord, Some field_name1_ord) \<Rightarrow>
                      (if field_name1_ord < length fs then
                         (if py_strip (fs ! field_name1_ord) = [] then
                            (if other_field_name_ord < length fs then
                               (let fs' = (fs[ford f := ''((c1::'' @ fs ! other_field_name_ord @ ''))''])
                                            [field_name1_ord := ''1'']
                                in auto_cloze_note model_flds i rest fs' (update_count + 1)
                                     (evs @ [Flush i fs']))
                             else Inl (IndexError, evs))
                          else auto_cloze_note model_flds i rest fs update_count evs)
                       else Inl (IndexError, evs))
                  | _ \<Rightarrow> auto_cloze_note model_flds i rest fs update_count evs)
            else auto_cloze_note model_flds i rest fs update_count evs)
         else Inl (IndexError, evs))
      else auto_cloze_note model_flds i rest fs update_count evs)"

fun auto_cloze_notes ::
  "Note list \<Rightarrow> nat \<Rightarrow> event list \<Rightarrow> (exn \<times> event list) + (nat \<times> event list)" where
  "auto_cloze_notes [] update_count evs = Inr (update_count, evs)"
| "auto_cloze_notes (n # ns) update_count evs =
     (case auto_cloze_note (flds (model n)) (nid n) (flds (model n)) (nfields n)
             update_count evs of
        Inl x \<Rightarrow> Inl x
      | Inr (fs', update_count', evs') \<Rightarrow> auto_cloze_notes ns update_count' evs')"

text \<open>Lines 191 to 224.\<close>

definition auto_cloze :: "Note list \<Rightarrow> event list \<times> exn option" where
  "auto_cloze nids =
     (if nids \<noteq> [] then
        (case auto_cloze_notes nids 0
                [Checkpoint (checkpoint_msg ''Auto-cloze'' (length nids)), BeginReset] of
           Inl (e, evs) \<Rightarrow> (evs, Some e)
         | Inr (update_count, evs) \<Rightarrow>
             (evs @ (if update_count \<noteq> 0 then [RequireReset] else []) @
                [Tooltip (updated_msg update_count), EndReset], None))
      else ([Tooltip ''You must select some cards first''], None))"

text \<open>
  Lines 257 to 264: the inner loop of create-missing, the reconciliation that overwrites
  whatever the auxiliary field holds.
\<close>

fun create_missing_fields ::
  "int set \<Rightarrow> string \<Rightarrow> field list \<Rightarrow> string list \<Rightarrow> bool \<Rightarrow> exn + (string list \<times> bool)" where
  "create_missing_fields cloze_nums field_name [] fs updated = Inr (fs, updated)"
| "create_missing_fields cloze_nums field_name (f # rest) fs updated =
     (case cloze_field_match field_name (fname f) of
        None \<Rightarrow> create_missing_fields cloze_nums field_name rest fs updated
      | Some g \<Rightarrow>
          (case py_int g of
             Inl e \<Rightarrow> Inl e
           | Inr cloze_num \<Rightarrow>
               (let field_content = (if cloze_num \<in> cloze_nums then ''1'' else [])
                in if ford f < length fs then
                     (if fs ! ford f \<noteq> field_content then
                        create_missing_fields cloze_nums field_name rest
                          (fs[ford f := field_content]) True
                      else create_missing_fields cloze_nums field_name rest fs updated)
                   else Inl IndexError)))"

text \<open>Lines 249 to 267: the fields of one note, in create-missing.\<close>

fun create_missing_note ::
  "field list \<Rightarrow> int \<Rightarrow> field list \<Rightarrow> string list \<Rightarrow> nat \<Rightarrow> event list
     \<Rightarrow> (exn \<times> event list) + (string list \<times> nat \<times> event list)" where
  "create_missing_note model_flds i [] fs update_count evs = Inr (fs, update_count, evs)"
| "create_missing_note model_flds i (f # rest) fs update_count evs =
     (if endswith (fname f) ''Cloze'' then
        (if ford f < length fs then
           (case get_cloze_nums (fs ! ford f) of
              Inl e \<Rightarrow> Inl (e, evs)
            | Inr cloze_nums \<Rightarrow>
                (case create_missing_fields cloze_nums (fname f) model_flds fs False of
                   Inl e \<Rightarrow> Inl (e, evs)
                 | Inr (fs', updated) \<Rightarrow>
                     if updated then
                       create_missing_note model_flds i rest fs' (update_count + 1)
                         (evs @ [Flush i fs'])
                     else create_missing_note model_flds i rest fs' update_count evs))
         else Inl (IndexError, evs))
      else create_missing_note model_flds i rest fs update_count evs)"

fun create_missing_notes ::
  "Note list \<Rightarrow> nat \<Rightarrow> event list \<Rightarrow> (exn \<times> event list) + (nat \<times> event list)" where
  "create_missing_notes [] update_count evs = Inr (update_count, evs)"
| "create_missing_notes (n # ns) update_count evs =
     (case create_missing_note (flds (model n)) (nid n) (flds (model n)) (nfields n)
             update_count evs of
        Inl x \<Rightarrow> Inl x
      | Inr (fs', update_count', evs') \<Rightarrow> create_missing_notes ns update_count' evs')"

text \<open>Lines 239 to 273.\<close>

definition create_missing :: "Note list \<Rightarrow> event list \<times> exn option" where
  "create_missing nids =
     (if nids \<noteq> [] then
        (case create_missing_notes nids 0
                [Checkpoint (checkpoint_msg ''Create Missing Cloze Cards'' (length nids)),
                 BeginReset] of
           Inl (e, evs) \<Rightarrow> (evs, Some e)
         | Inr (update_count, evs) \<Rightarrow>
             (evs @ (if update_count \<noteq> 0 then [RequireReset] else []) @
                [Tooltip (updated_msg update_count), EndReset], None))
      else ([Tooltip ''You must select some cards first''], None))"

section \<open>Properties of the scanner\<close>

subsection \<open>Digit strings\<close>

lemma is_digit_not_space: "is_digit c \<Longrightarrow> \<not> py_isspace c"
  by (auto simp: is_digit_def py_isspace_def)

lemma is_digit_not_sign: "is_digit c \<Longrightarrow> c \<noteq> CHR ''-'' \<and> c \<noteq> CHR ''+'' \<and> c \<noteq> CHR ''_''"
  by (auto simp: is_digit_def)

lemma is_digit_not_misc: "is_digit c \<Longrightarrow> c \<noteq> newline \<and> c \<noteq> CHR '':'' \<and> c \<noteq> CHR ''e''"
  by (auto simp: is_digit_def newline_def)

lemma py_strip_id:
  assumes "s \<noteq> []" "\<not> py_isspace (hd s)" "\<not> py_isspace (last s)"
  shows "py_strip s = s"
proof -
  from assms(1,2) have a: "dropWhile py_isspace s = s"
    by (cases s) auto
  from assms(1,3) have b: "dropWhile py_isspace (rev s) = rev s"
    by (cases "rev s") (auto simp: hd_rev)
  show ?thesis
    by (simp add: py_strip_def a b)
qed

lemma int_body_ok_digits: "s \<noteq> [] \<Longrightarrow> list_all is_digit s \<Longrightarrow> int_body_ok s"
  by (induction s rule: int_body_ok.induct) (auto dest: is_digit_not_sign)

lemma filter_underscore_digits:
  "list_all is_digit s \<Longrightarrow> filter (\<lambda>c. c \<noteq> CHR ''_'') s = s"
  by (induction s) (auto dest: is_digit_not_sign)

lemma py_int_digits:
  assumes "s \<noteq> []" "list_all is_digit s"
  shows "py_int s = Inr (int (digits_val s))"
proof -
  from assms have h: "is_digit (hd s)" and l: "is_digit (last s)"
    by (auto simp: list_all_iff)
  have st: "py_strip s = s"
    using assms(1) h l by (intro py_strip_id) (auto dest: is_digit_not_space)
  show ?thesis
    using assms h is_digit_not_sign [of "hd s"]
    by (simp add: py_int_def st int_body_ok_digits filter_underscore_digits)
qed

lemma match_at_digits:
  "match_at s = Some (ds, r) \<Longrightarrow> ds \<noteq> [] \<and> list_all is_digit ds"
  by (auto simp: match_at_def Let_def list_all_iff split: if_splits list.splits option.splits
      dest: set_takeWhileD)

lemma findall_digits: "ds \<in> set (findall s) \<Longrightarrow> ds \<noteq> [] \<and> list_all is_digit ds"
proof (induction s rule: findall.induct)
  case 1
  then show ?case by simp
next
  case (2 c cs)
  show ?case
  proof (cases "match_at (c # cs)")
    case None
    from 2(1) [OF None] 2(3) None show ?thesis by simp
  next
    case (Some a)
    obtain d r where a: "a = (d, r)" by (cases a)
    note IH = 2(2) [OF Some a [symmetric]]
    from 2(3) Some a have "ds = d \<or> ds \<in> set (findall r)" by simp
    then show ?thesis
      using IH match_at_digits [OF Some [unfolded a]] by auto
  qed
qed

lemma int_all_digits:
  "\<forall>x\<in>set xs. x \<noteq> [] \<and> list_all is_digit x \<Longrightarrow>
     int_all xs = Inr (map (\<lambda>ds. int (digits_val ds)) xs)"
  by (induction xs) (simp_all add: py_int_digits)

lemma get_cloze_nums_total:
  "get_cloze_nums content = Inr ((\<lambda>ds. int (digits_val ds)) ` set (findall content))"
proof -
  have "int_all (findall content) = Inr (map (\<lambda>ds. int (digits_val ds)) (findall content))"
    by (rule int_all_digits) (auto dest: findall_digits)
  then show ?thesis
    by (simp add: get_cloze_nums_def Let_def)
qed

lemma digit_char:
  "d < 10 \<Longrightarrow> is_digit (''0123456789'' ! d) \<and> digit_val (''0123456789'' ! d) = d"
proof -
  assume "d < 10"
  then have "d \<in> {0, 1, 2, 3, 4, 5, 6, 7, 8, 9}" by auto
  then show ?thesis
    by (auto simp: is_digit_def digit_val_def)
qed

lemma digits_val_snoc: "digits_val (xs @ [c]) = 10 * digits_val xs + digit_val c"
  by (simp add: digits_val_def)

lemma str_nat_digits: "str_nat n \<noteq> [] \<and> list_all is_digit (str_nat n) \<and> digits_val (str_nat n) = n"
proof (induction n rule: str_nat.induct)
  case (1 n)
  show ?case
  proof (cases "n < 10")
    case True
    then show ?thesis
      using digit_char [of n] by (simp add: digits_val_def)
  next
    case False
    have m: "n mod 10 < 10" by simp
    from False 1 have IH: "str_nat (n div 10) \<noteq> []" "list_all is_digit (str_nat (n div 10))"
      "digits_val (str_nat (n div 10)) = n div 10" by simp_all
    have e: "str_nat n = str_nat (n div 10) @ [''0123456789'' ! (n mod 10)]"
      using False by (subst str_nat.simps) simp
    show ?thesis
      using IH digit_char [OF m] by (simp add: e digits_val_snoc del: str_nat.simps)
  qed
qed

lemma lazy_close_payload:
  "newline \<notin> set q \<Longrightarrow> \<exists>r. lazy_close (q @ ''))'') = Some r"
  by (induction q) (auto simp: startswith_def)

lemma takeWhile_digits_colon:
  "list_all is_digit ds \<Longrightarrow> takeWhile is_digit (ds @ CHR '':'' # t) = ds
     \<and> dropWhile is_digit (ds @ CHR '':'' # t) = CHR '':'' # t"
  by (induction ds) (auto simp: is_digit_def)

lemma match_at_wrapped:
  assumes "ds \<noteq> []" "list_all is_digit ds" "p \<noteq> []" "newline \<notin> set p"
  shows "\<exists>r. match_at (''((c'' @ ds @ ''::'' @ p @ ''))'') = Some (ds, r)"
proof -
  from assms(3) obtain c q where p: "p = c # q" by (cases p) auto
  with assms(4) have c: "c \<noteq> newline" and q: "newline \<notin> set q" by auto
  from lazy_close_payload [OF q] obtain r where r: "lazy_close (q @ ''))'') = Some r" ..
  have "match_at (''((c'' @ ds @ ''::'' @ p @ ''))'') = Some (ds, r)"
    using assms(1) c r takeWhile_digits_colon [OF assms(2), of "CHR '':'' # p @ ''))''"]
    by (simp add: match_at_def startswith_def p)
  then show ?thesis ..
qed


text \<open>
  Claim C4, as stated, fails on the empty payload: the pattern's \<open>.+?\<close> needs at least
  one character, so the wrapped text \<open>((c1::))\<close> has no marker span.
\<close>

theorem wrap_scan_empty_payload_counterexample:
  "get_cloze_nums (''((c'' @ py_str 1 @ ''::'' @ [] @ ''))'') = Inr {}"
  by code_simp

text \<open>
  Claim C4, amended. For every identifier \<open>n\<close> that is not negative and every payload
  that is not empty and has no line break, scanning the wrapped text \<open>((cn::payload))\<close>
  gives a set that contains \<open>n\<close>.
\<close>

theorem wrap_scan_roundtrip:
  assumes "p \<noteq> []" "newline \<notin> set p" "0 \<le> n"
  shows "\<exists>S. get_cloze_nums (''((c'' @ py_str n @ ''::'' @ p @ ''))'') = Inr S \<and> n \<in> S"
proof -
  let ?ds = "str_nat (nat n)"
  let ?text = "''((c'' @ ?ds @ ''::'' @ p @ ''))''"
  from assms(3) have s: "py_str n = ?ds"
    by (simp add: py_str_def)
  from str_nat_digits [of "nat n"] have d: "?ds \<noteq> []" "list_all is_digit ?ds"
    and v: "digits_val ?ds = nat n"
    by simp_all
  from match_at_wrapped [OF d assms(1,2)] obtain r
    where m: "match_at ?text = Some (?ds, r)" ..
  have "?ds \<in> set (findall ?text)"
    using m by simp
  then have "int (digits_val ?ds) \<in> (\<lambda>ds. int (digits_val ds)) ` set (findall ?text)"
    by (rule imageI)
  then show ?thesis
    using assms(3) by (simp add: get_cloze_nums_total s v del: str_nat.simps)
qed

theorem wrap_scan_roundtrip_witness:
  "\<exists>S. get_cloze_nums (''((c'' @ py_str 4 @ ''::'' @ ''Paris'' @ ''))'') = Inr S \<and> 4 \<in> S"
  using wrap_scan_roundtrip [of "''Paris''" 4] by (simp add: newline_def)

section \<open>Properties of the reconciler\<close>

subsection \<open>The field-name pattern\<close>

lemma cloze_field_match_iff:
  "cloze_field_match b nm = Some g \<longleftrightarrow>
     g \<noteq> [] \<and> list_all is_digit g \<and> (nm = b @ g \<or> nm = b @ g @ [newline])"
proof
  assume m: "cloze_field_match b nm = Some g"
  let ?r = "drop (length b) nm"
  from m have sw: "take (length b) nm = b"
    by (auto simp: cloze_field_match_def startswith_def split: if_splits)
  then have nm: "nm = b @ ?r"
    by (metis append_take_drop_id)
  from m sw have g: "g = (if ?r \<noteq> [] \<and> last ?r = newline then butlast ?r else ?r)"
      and d: "g \<noteq> []" "list_all is_digit g"
    by (auto simp: cloze_field_match_def startswith_def Let_def split: if_splits)
  show "g \<noteq> [] \<and> list_all is_digit g \<and> (nm = b @ g \<or> nm = b @ g @ [newline])"
  proof (cases "?r \<noteq> [] \<and> last ?r = newline")
    case True
    with g have "?r = g @ [newline]"
      by (metis append_butlast_last_id)
    with nm d show ?thesis by simp
  next
    case False
    with g nm d show ?thesis by auto
  qed
next
  assume a: "g \<noteq> [] \<and> list_all is_digit g \<and> (nm = b @ g \<or> nm = b @ g @ [newline])"
  then have "is_digit (last g)"
    by (auto simp: list_all_iff)
  then have l: "last g \<noteq> newline"
    by (auto dest: is_digit_not_misc)
  from a l show "cloze_field_match b nm = Some g"
    by (auto simp: cloze_field_match_def startswith_def)
qed

lemma cloze_field_match_int:
  "cloze_field_match b nm = Some g \<Longrightarrow> py_int g = Inr (int (digits_val g))"
  by (simp add: cloze_field_match_iff py_int_digits)

lemma ucf_loop_nomatch:
  "cloze_field_match b (fname f) = None \<Longrightarrow>
     update_cloze_fields_loop munge S b (f # rest) fs cmds found =
       update_cloze_fields_loop munge S b rest fs cmds found"
  by simp

lemma ucf_loop_match:
  "cloze_field_match b (fname f) = Some g \<Longrightarrow>
     update_cloze_fields_loop munge S b (f # rest) fs cmds found =
       (if ford f < length fs then
          (if py_strip (fs ! ford f) \<in> {''1'', []} then
             update_cloze_fields_loop munge S b rest
               (fs[ford f := munge (if int (digits_val g) \<in> S then ''1'' else ''<br>'')])
               (cmds @ [SetHtml (ford f) (if int (digits_val g) \<in> S then ''1'' else ''<br>'')])
               (insert (int (digits_val g)) found)
           else update_cloze_fields_loop munge S b rest fs cmds (insert (int (digits_val g)) found))
        else Inl (IndexError, fs))"
  by (simp add: cloze_field_match_int Let_def)

declare update_cloze_fields_loop.simps(2) [simp del]

lemma ucf_loop_keep:
  assumes "\<forall>f\<in>set fl. ford f = i \<longrightarrow>
             cloze_field_match b (fname f) = None \<or> py_strip (fs ! i) \<notin> {''1'', []}"
  shows "case update_cloze_fields_loop munge S b fl fs cmds found of
           Inl (e, fs') \<Rightarrow> fs' ! i = fs ! i
         | Inr (cmds', found', fs') \<Rightarrow>
             fs' ! i = fs ! i \<and> (\<forall>v. SetHtml i v \<in> set cmds' \<longrightarrow> SetHtml i v \<in> set cmds)"
  using assms
proof (induction fl arbitrary: fs cmds found)
  case Nil
  then show ?case by simp
next
  case (Cons f rest)
  show ?case
  proof (cases "cloze_field_match b (fname f)")
    case None
    with Cons show ?thesis
      by (simp add: ucf_loop_nomatch)
  next
    case (Some g)
    let ?c = "if int (digits_val g) \<in> S then ''1'' else ''<br>''"
    let ?n = "insert (int (digits_val g)) found"
    show ?thesis
    proof (cases "ford f < length fs \<and> py_strip (fs ! ford f) \<in> {''1'', []}")
      case False
      have "\<forall>f\<in>set rest. ford f = i \<longrightarrow>
             cloze_field_match b (fname f) = None \<or> py_strip (fs ! i) \<notin> {''1'', []}"
        using Cons.prems by simp
      from Cons.IH [OF this, of cmds ?n] False Some show ?thesis
        by (auto simp: ucf_loop_match)
    next
      case True
      with Cons.prems Some have ne: "ford f \<noteq> i"
        by auto
      let ?fs = "fs[ford f := munge ?c]"
      have "\<forall>f\<in>set rest. ford f = i \<longrightarrow>
             cloze_field_match b (fname f) = None \<or> py_strip (?fs ! i) \<notin> {''1'', []}"
        using Cons.prems ne by simp
      from Cons.IH [OF this, of "cmds @ [SetHtml (ford f) ?c]" ?n] True Some ne show ?thesis
        by (auto simp: ucf_loop_match split: sum.splits)
    qed
  qed
qed

lemma ucf_loop_step:
  assumes "cloze_field_match b (fname f) = Some g"
    "update_cloze_fields_loop munge S b (f # rest) fs cmds found = Inr R"
  shows "\<exists>fs1 cmds1. update_cloze_fields_loop munge S b rest fs1 cmds1
             (insert (int (digits_val g)) found) = Inr R
           \<and> length fs1 = length fs \<and> set cmds \<subseteq> set cmds1 \<and> ford f < length fs
           \<and> (\<forall>i. i \<noteq> ford f \<longrightarrow> fs1 ! i = fs ! i)"
proof -
  let ?c = "if int (digits_val g) \<in> S then ''1'' else ''<br>''"
  let ?n = "insert (int (digits_val g)) found"
  from assms have r: "ford f < length fs"
    by (auto simp: ucf_loop_match split: if_splits)
  show ?thesis
  proof (cases "py_strip (fs ! ford f) \<in> {''1'', []}")
    case True
    with assms r have
      "update_cloze_fields_loop munge S b rest (fs[ford f := munge ?c])
         (cmds @ [SetHtml (ford f) ?c]) ?n = Inr R"
      by (simp add: ucf_loop_match)
    then show ?thesis
      using r by (intro exI [of _ "fs[ford f := munge ?c]"]
          exI [of _ "cmds @ [SetHtml (ford f) ?c]"]) auto
  next
    case False
    with assms r have "update_cloze_fields_loop munge S b rest fs cmds ?n = Inr R"
      by (simp add: ucf_loop_match)
    then show ?thesis
      using r by (intro exI [of _ fs] exI [of _ cmds]) auto
  qed
qed

lemma ucf_loop_found:
  "update_cloze_fields_loop munge S b fl fs cmds found = Inr (cmds', found', fs') \<Longrightarrow>
     found' = found \<union> {n. \<exists>f\<in>set fl. \<exists>g. cloze_field_match b (fname f) = Some g
                                    \<and> n = int (digits_val g)}"
proof (induction fl arbitrary: fs cmds found)
  case Nil
  then show ?case by simp
next
  case (Cons f rest)
  show ?case
  proof (cases "cloze_field_match b (fname f)")
    case None
    with Cons show ?thesis
      by (simp add: ucf_loop_nomatch)
  next
    case (Some g)
    from ucf_loop_step [OF Some Cons.prems] obtain fs1 cmds1 where
      "update_cloze_fields_loop munge S b rest fs1 cmds1
          (insert (int (digits_val g)) found) = Inr (cmds', found', fs')"
      by blast
    from Cons.IH [OF this] Some show ?thesis
      by auto
  qed
qed

lemma ucf_loop_cmds_mono:
  "update_cloze_fields_loop munge S b fl fs cmds found = Inr (cmds', found', fs') \<Longrightarrow>
     set cmds \<subseteq> set cmds'"
proof (induction fl arbitrary: fs cmds found)
  case Nil
  then show ?case by simp
next
  case (Cons f rest)
  show ?case
  proof (cases "cloze_field_match b (fname f)")
    case None
    with Cons show ?thesis
      by (simp add: ucf_loop_nomatch)
  next
    case (Some g)
    from ucf_loop_step [OF Some Cons.prems] obtain fs1 cmds1 where
      "update_cloze_fields_loop munge S b rest fs1 cmds1
         (insert (int (digits_val g)) found) = Inr (cmds', found', fs')"
      and "set cmds \<subseteq> set cmds1"
      by blast
    with Cons.IH show ?thesis
      by blast
  qed
qed

lemma ucf_loop_length:
  "update_cloze_fields_loop munge S b fl fs cmds found = Inr (cmds', found', fs') \<Longrightarrow>
     length fs' = length fs"
proof (induction fl arbitrary: fs cmds found)
  case Nil
  then show ?case by simp
next
  case (Cons f rest)
  show ?case
  proof (cases "cloze_field_match b (fname f)")
    case None
    with Cons show ?thesis
      by (simp add: ucf_loop_nomatch)
  next
    case (Some g)
    from ucf_loop_step [OF Some Cons.prems] obtain fs1 cmds1 where
      "update_cloze_fields_loop munge S b rest fs1 cmds1
         (insert (int (digits_val g)) found) = Inr (cmds', found', fs')"
      and "length fs1 = length fs"
      by blast
    with Cons.IH [of fs1 cmds1] show ?thesis
      by simp
  qed
qed

lemma ucf_loop_set:
  assumes "distinct (map ford fl)" "f \<in> set fl" "cloze_field_match b (fname f) = Some g"
    "py_strip (fs ! ford f) \<in> {''1'', []}"
    "update_cloze_fields_loop munge S b fl fs cmds found = Inr (cmds', found', fs')"
  shows "fs' ! ford f = munge (if int (digits_val g) \<in> S then ''1'' else ''<br>'')
         \<and> SetHtml (ford f) (if int (digits_val g) \<in> S then ''1'' else ''<br>'') \<in> set cmds'"
  using assms
proof (induction fl arbitrary: fs cmds found)
  case Nil
  then show ?case by simp
next
  case (Cons h rest)
  let ?c = "if int (digits_val g) \<in> S then ''1'' else ''<br>''"
  show ?case
  proof (cases "h = f")
    case True
    let ?fs = "fs[ford f := munge ?c]"
    let ?cm = "cmds @ [SetHtml (ford f) ?c]"
    let ?n = "insert (int (digits_val g)) found"
    from Cons.prems True have r: "ford f < length fs"
      and run: "update_cloze_fields_loop munge S b rest ?fs ?cm ?n = Inr (cmds', found', fs')"
      by (auto simp: ucf_loop_match split: if_splits)
    have "\<forall>x\<in>set rest. ford x \<noteq> ford f"
      using Cons.prems(1) True by (auto simp: image_iff)
    then have "\<forall>x\<in>set rest. ford x = ford f \<longrightarrow>
             cloze_field_match b (fname x) = None \<or> py_strip (?fs ! ford f) \<notin> {''1'', []}"
      by blast
    from ucf_loop_keep [where munge = munge and S = S and cmds = ?cm and found = ?n, OF this] run
    have "fs' ! ford f = ?fs ! ford f"
      by simp
    moreover have "SetHtml (ford f) ?c \<in> set cmds'"
      using ucf_loop_cmds_mono [OF run] by auto
    ultimately show ?thesis
      using r by simp
  next
    case False
    with Cons.prems have f: "f \<in> set rest" and ne: "ford h \<noteq> ford f"
      and d: "distinct (map ford rest)"
      by auto
    show ?thesis
    proof (cases "cloze_field_match b (fname h)")
      case None
      with Cons.prems(5) have
        "update_cloze_fields_loop munge S b rest fs cmds found = Inr (cmds', found', fs')"
        by (simp add: ucf_loop_nomatch)
      from Cons.IH [OF d f Cons.prems(3,4) this] show ?thesis .
    next
      case (Some k)
      from ucf_loop_step [OF Some Cons.prems(5)] ne obtain fs1 cmds1 found1 where
        e: "fs1 ! ford f = fs ! ford f" and
        run: "update_cloze_fields_loop munge S b rest fs1 cmds1 found1 = Inr (cmds', found', fs')"
        by (metis (lifting))
      from Cons.prems(4) e have "py_strip (fs1 ! ford f) \<in> {''1'', []}"
        by simp
      from Cons.IH [OF d f Cons.prems(3) this run] show ?thesis .
    qed
  qed
qed

lemma py_strip_space:
  assumes "list_all py_isspace l"
  shows "py_strip l = []"
proof -
  have a: "dropWhile py_isspace l = []"
    using assms by (simp add: list_all_iff)
  show ?thesis
    unfolding py_strip_def a by simp
qed

lemma py_strip_padded_one:
  assumes "list_all py_isspace l" "list_all py_isspace r"
  shows "py_strip (l @ ''1'' @ r) = ''1''"
proof -
  have n: "\<not> py_isspace (CHR ''1'')"
    by (simp add: py_isspace_def)
  have a: "dropWhile py_isspace (l @ ''1'' @ r) = ''1'' @ r"
    using assms(1) n by (simp add: dropWhile_append list_all_iff)
  have b: "dropWhile py_isspace (rev (''1'' @ r)) = ''1''"
    using assms(2) n by (simp add: dropWhile_append list_all_iff)
  show ?thesis
    unfolding py_strip_def a b by simp
qed

text \<open>
  Claim C2, as stated, fails. The guard strips whitespace before it compares, so a field
  that holds a one between spaces, which is neither the active marker nor empty nor the
  placeholder, is overwritten in safe mode.
\<close>

theorem safe_mode_overwrite_counterexample:
  "'' 1 '' \<notin> {''1'', [], ''<br>''}
   \<and> update_cloze_fields mungeHTML {2} ''XCloze''
         [\<lparr>fname = ''XCloze'', ford = 0\<rparr>, \<lparr>fname = ''XCloze1'', ford = 1\<rparr>]
         [''((c2::a))'', '' 1 '']
       = Inr ([SetHtml 1 ''<br>''], {1}, [''((c2::a))'', []])"
  by code_simp

text \<open>
  Claim C2, amended. In a schema whose ordinals are distinct, a field whose
  whitespace-stripped value is neither \<open>1\<close> nor empty is never updated by a safe-mode
  reconciliation, whatever the desired value: its value stays and no command for its
  ordinal is emitted, whether the call returns or raises.
\<close>

theorem safe_mode_keeps_manual_content:
  assumes "distinct (map ford model_flds)" "f \<in> set model_flds"
    "py_strip (fs ! ford f) \<notin> {''1'', []}"
  shows "case update_cloze_fields munge cloze_nums cloze_field_name model_flds fs of
           Inl (e, fs') \<Rightarrow> fs' ! ford f = fs ! ford f
         | Inr (commands, found, fs') \<Rightarrow>
             fs' ! ford f = fs ! ford f \<and> (\<forall>v. SetHtml (ford f) v \<notin> set commands)"
proof -
  have "\<forall>x\<in>set model_flds. ford x = ford f \<longrightarrow>
          cloze_field_match cloze_field_name (fname x) = None
          \<or> py_strip (fs ! ford f) \<notin> {''1'', []}"
    using assms(3) by blast
  from ucf_loop_keep [where munge = munge and S = cloze_nums and cmds = "[]" and found = "{}",
      OF this]
  show ?thesis
    by (auto simp: update_cloze_fields_def split: sum.splits)
qed

theorem safe_mode_keeps_manual_content_witness:
  "update_cloze_fields mungeHTML {2} ''XCloze''
         [\<lparr>fname = ''XCloze'', ford = 0\<rparr>, \<lparr>fname = ''XCloze1'', ford = 1\<rparr>]
         [''((c2::a))'', ''custom text'']
     = Inr ([], {1}, [''((c2::a))'', ''custom text''])
   \<and> (case update_cloze_fields mungeHTML {2} ''XCloze''
         [\<lparr>fname = ''XCloze'', ford = 0\<rparr>, \<lparr>fname = ''XCloze1'', ford = 1\<rparr>]
         [''((c2::a))'', ''custom text''] of
           Inl (e, fs') \<Rightarrow> fs' ! 1 = ''custom text''
         | Inr (commands, found, fs') \<Rightarrow>
             fs' ! 1 = ''custom text'' \<and> (\<forall>v. SetHtml 1 v \<notin> set commands))"
proof -
  let ?F = "[\<lparr>fname = ''XCloze'', ford = 0\<rparr>, \<lparr>fname = ''XCloze1'', ford = 1\<rparr>]"
  have d: "distinct (map ford ?F)" by simp
  have m: "\<lparr>fname = ''XCloze1'', ford = 1\<rparr> \<in> set ?F" by simp
  have s: "py_strip ([''((c2::a))'', ''custom text''] ! ford \<lparr>fname = ''XCloze1'', ford = 1\<rparr>)
             \<notin> {''1'', []}"
    by code_simp
  have e: "update_cloze_fields mungeHTML {2} ''XCloze'' ?F [''((c2::a))'', ''custom text'']
     = Inr ([], {1}, [''((c2::a))'', ''custom text''])"
    by code_simp
  from safe_mode_keeps_manual_content [OF d m s, of mungeHTML "{2}" "''XCloze''"] e
  show ?thesis
    by simp
qed

text \<open>
  Claim C10. The guard compares the whitespace-stripped value with \<open>1\<close> and the empty
  string. So an auxiliary field whose value is only whitespace, or is \<open>1\<close> with
  whitespace around it, passes the guard: a safe-mode reconciliation that returns has
  written the (munged) desired value into it and has emitted the command for it.
\<close>

theorem safe_mode_overwrites_whitespace_values:
  assumes "distinct (map ford model_flds)" "f \<in> set model_flds"
    "cloze_field_match cloze_field_name (fname f) = Some g"
    "list_all py_isspace l" "list_all py_isspace r"
    "fs ! ford f = l \<or> fs ! ford f = l @ ''1'' @ r"
    "update_cloze_fields munge cloze_nums cloze_field_name model_flds fs
       = Inr (commands, found, fs')"
  shows "py_strip (fs ! ford f) \<in> {''1'', []}
         \<and> fs' ! ford f = munge (if int (digits_val g) \<in> cloze_nums then ''1'' else ''<br>'')
         \<and> SetHtml (ford f) (if int (digits_val g) \<in> cloze_nums then ''1'' else ''<br>'')
              \<in> set commands"
proof -
  have s: "py_strip (fs ! ford f) \<in> {''1'', []}"
    using assms(6) py_strip_space [OF assms(4)] py_strip_padded_one [OF assms(4,5)] by auto
  from ucf_loop_set [OF assms(1-3) s assms(7) [unfolded update_cloze_fields_def]] s
  show ?thesis
    by simp
qed

theorem safe_mode_overwrites_whitespace_values_witness:
  "update_cloze_fields mungeHTML {2} ''XCloze''
     [\<lparr>fname = ''XCloze'', ford = 0\<rparr>, \<lparr>fname = ''XCloze1'', ford = 1\<rparr>,
      \<lparr>fname = ''XCloze2'', ford = 2\<rparr>]
     [''((c2::a))'', '' 1  '', ''  '']
     = Inr ([SetHtml 1 ''<br>'', SetHtml 2 ''1''], {1, 2}, [''((c2::a))'', [], ''1''])
   \<and> py_strip '' 1  '' \<in> {''1'', []}
   \<and> [''((c2::a))'', [], ''1''] ! 1 = mungeHTML ''<br>''
   \<and> SetHtml 1 ''<br>'' \<in> set [SetHtml 1 ''<br>'', SetHtml 2 ''1'']"
proof -
  let ?F = "[\<lparr>fname = ''XCloze'', ford = 0\<rparr>, \<lparr>fname = ''XCloze1'', ford = 1\<rparr>,
      \<lparr>fname = ''XCloze2'', ford = 2\<rparr>]"
  let ?f = "\<lparr>fname = ''XCloze1'', ford = 1\<rparr>"
  let ?fs = "[''((c2::a))'', '' 1  '', ''  '']"
  have d: "distinct (map ford ?F)" by simp
  have m: "?f \<in> set ?F" by simp
  have c: "cloze_field_match ''XCloze'' (fname ?f) = Some ''1''"
    by code_simp
  have l: "list_all py_isspace '' ''" and r: "list_all py_isspace ''  ''"
    by code_simp+
  have v: "?fs ! ford ?f = '' '' \<or> ?fs ! ford ?f = '' '' @ ''1'' @ ''  ''"
    by simp
  have e: "update_cloze_fields mungeHTML {2} ''XCloze'' ?F ?fs
     = Inr ([SetHtml 1 ''<br>'', SetHtml 2 ''1''], {1, 2}, [''((c2::a))'', [], ''1''])"
    by code_simp
  have n: "int (digits_val ''1'') \<notin> {2}"
    by code_simp
  from safe_mode_overwrites_whitespace_values [OF d m c l r v e] e n
  show ?thesis
    by simp
qed

text \<open>
  Claim C7, as stated, fails on the suffix: the pattern takes any digit run. A field
  \<open>Field0\<close> is found as identifier 0, which is not positive, and \<open>Field01\<close> is found as
  identifier 1 although no field is named \<open>Field1\<close>.
\<close>

theorem found_cloze_nums_zero_counterexample:
  "update_cloze_fields mungeHTML {1, 2, 3} ''Field''
     [\<lparr>fname = ''Field0'', ford = 0\<rparr>, \<lparr>fname = ''Field01'', ford = 1\<rparr>] [[], []]
   = Inr ([SetHtml 0 ''<br>'', SetHtml 1 ''1''], {0, 1}, [[], ''1''])"
  by code_simp

text \<open>
  Claim C7, amended. A reconciliation that returns gives as found identifiers exactly the
  integer values of the digit runs \<open>ds\<close> for which the schema has a field named the base
  name followed by \<open>ds\<close> (and possibly one final line break); nothing may stand between or
  before. The caller \<open>onCloze\<close> reports the identifiers that were not found as the base
  name followed by each identifier, in ascending order of the identifiers.
\<close>

theorem found_cloze_nums_exact:
  assumes "update_cloze_fields munge cloze_nums cloze_field_name model_flds fs
             = Inr (commands, found, fs')"
  shows "found = {k. \<exists>f\<in>set model_flds. \<exists>ds. ds \<noteq> [] \<and> list_all is_digit ds
                   \<and> (fname f = cloze_field_name @ ds
                        \<or> fname f = cloze_field_name @ ds @ [newline])
                   \<and> k = int (digits_val ds)}
         \<and> missing_names cloze_field_name (cloze_nums - found)
             = map (\<lambda>k. cloze_field_name @ py_str k) (sorted_list_of_set (cloze_nums - found))
         \<and> (get_cloze_nums content = Inr scanned
               \<and> cloze_nums = insert (next_cloze_num scanned alt) scanned
               \<and> model_flds = flds (model n) \<and> fs = nfields n \<and> cloze_nums - found \<noteq> {}
            \<longrightarrow> (\<exists>ed'. onCloze_fill munge alt ed n cloze_field_name content = Inr (Handled, ed')
                   \<and> tips ed' = tips ed @
                        [''Not enough cloze fields.  Missing: '' @
                           join_comma (missing_names cloze_field_name (cloze_nums - found))]))"
proof -
  from ucf_loop_found [OF assms [unfolded update_cloze_fields_def]]
  have "found = {k. \<exists>f\<in>set model_flds. \<exists>g. cloze_field_match cloze_field_name (fname f) = Some g
                                    \<and> k = int (digits_val g)}"
    by simp
  then have a: "found = {k. \<exists>f\<in>set model_flds. \<exists>ds. ds \<noteq> [] \<and> list_all is_digit ds
                   \<and> (fname f = cloze_field_name @ ds
                        \<or> fname f = cloze_field_name @ ds @ [newline])
                   \<and> k = int (digits_val ds)}"
    by (simp add: cloze_field_match_iff)
  have b: "missing_names cloze_field_name (cloze_nums - found)
             = map (\<lambda>k. cloze_field_name @ py_str k) (sorted_list_of_set (cloze_nums - found))"
    by (simp add: missing_names_def)
  have c: "get_cloze_nums content = Inr scanned
               \<and> cloze_nums = insert (next_cloze_num scanned alt) scanned
               \<and> model_flds = flds (model n) \<and> fs = nfields n \<and> cloze_nums - found \<noteq> {}
            \<longrightarrow> (\<exists>ed'. onCloze_fill munge alt ed n cloze_field_name content = Inr (Handled, ed')
                   \<and> tips ed' = tips ed @
                        [''Not enough cloze fields.  Missing: '' @
                           join_comma (missing_names cloze_field_name (cloze_nums - found))])"
  proof (intro impI, elim conjE)
    assume g: "get_cloze_nums content = Inr scanned"
      and k: "cloze_nums = insert (next_cloze_num scanned alt) scanned"
      and m: "model_flds = flds (model n)" and f: "fs = nfields n"
      and ne: "cloze_nums - found \<noteq> {}"
    let ?C = "insert (next_cloze_num scanned alt) scanned"
    have u: "update_cloze_fields munge ?C cloze_field_name (flds (model n)) (nfields n)
               = Inr (commands, found, fs')"
      using assms k m f by simp
    have ne': "?C - found \<noteq> {}"
      using ne unfolding k .
    have "onCloze_fill munge alt ed n cloze_field_name content =
            Inr (Handled, ed\<lparr>ed_note := Some (n\<lparr>nfields := fs'\<rparr>),
                   web := web ed @ [Wrap (''((c'' @ py_str (next_cloze_num scanned alt) @ ''::'')
                                      ''))'' # commands],
                   tips := tips ed @
                        [''Not enough cloze fields.  Missing: '' @
                           join_comma (missing_names cloze_field_name (?C - found))]\<rparr>)"
      apply (simp only: onCloze_fill_def Let_def g u sum.case prod.case ne'
          not_False_eq_True if_True)
      apply simp
      done
    then show "\<exists>ed'. onCloze_fill munge alt ed n cloze_field_name content = Inr (Handled, ed')
                   \<and> tips ed' = tips ed @
                        [''Not enough cloze fields.  Missing: '' @
                           join_comma (missing_names cloze_field_name (cloze_nums - found))]"
      unfolding k by simp
  qed
  show ?thesis
    by (rule conjI [OF a conjI [OF b c]])
qed

theorem found_cloze_nums_exact_witness:
  "update_cloze_fields mungeHTML {1, 2, 3} ''Field''
     [\<lparr>fname = ''Field'', ford = 0\<rparr>, \<lparr>fname = ''Field1'', ford = 1\<rparr>,
      \<lparr>fname = ''Field2'', ford = 2\<rparr>]
     [''((c1::a)) ((c2::b))'', ''1'', ''1'']
     = Inr ([SetHtml 1 ''1'', SetHtml 2 ''1''], {1, 2}, [''((c1::a)) ((c2::b))'', ''1'', ''1''])
   \<and> {1, 2} = {k. \<exists>f\<in>set [\<lparr>fname = ''Field'', ford = 0\<rparr>, \<lparr>fname = ''Field1'', ford = 1\<rparr>,
                              \<lparr>fname = ''Field2'', ford = 2\<rparr>].
                  \<exists>ds. ds \<noteq> [] \<and> list_all is_digit ds
                     \<and> (fname f = ''Field'' @ ds \<or> fname f = ''Field'' @ ds @ [newline])
                     \<and> k = int (digits_val ds)}
   \<and> missing_names ''Field'' ({1, 2, 3} - {1, 2}) = [''Field3'']
   \<and> (\<exists>ed'. onCloze_fill mungeHTML False
               \<lparr>ed_note = None, currentField = Some 0, web = [], tips = []\<rparr>
               \<lparr>nid = 7, nfields = [''((c1::a)) ((c2::b))'', ''1'', ''1''],
                model = \<lparr>flds = [\<lparr>fname = ''Field'', ford = 0\<rparr>, \<lparr>fname = ''Field1'', ford = 1\<rparr>,
                                  \<lparr>fname = ''Field2'', ford = 2\<rparr>], tmpls = []\<rparr>\<rparr>
               ''Field'' ''((c1::a)) ((c2::b))'' = Inr (Handled, ed')
          \<and> tips ed' = [''Not enough cloze fields.  Missing: Field3''])"
proof -
  let ?F = "[\<lparr>fname = ''Field'', ford = 0\<rparr>, \<lparr>fname = ''Field1'', ford = 1\<rparr>,
      \<lparr>fname = ''Field2'', ford = 2\<rparr>]"
  let ?fs = "[''((c1::a)) ((c2::b))'', ''1'', ''1'']"
  let ?n = "\<lparr>nid = 7, nfields = ?fs, model = \<lparr>flds = ?F, tmpls = []\<rparr>\<rparr>"
  let ?ed = "\<lparr>ed_note = None, currentField = Some 0, web = [], tips = []\<rparr>"
  have e: "update_cloze_fields mungeHTML {1, 2, 3} ''Field'' ?F ?fs
     = Inr ([SetHtml 1 ''1'', SetHtml 2 ''1''], {1, 2}, ?fs)"
    by code_simp
  note t = found_cloze_nums_exact [OF e, where content = "''((c1::a)) ((c2::b))''"
      and scanned = "{1, 2}" and alt = False and n = ?n and ed = ?ed]
  have g: "get_cloze_nums ''((c1::a)) ((c2::b))'' = Inr {1, 2}"
    by code_simp
  have x: "{1, 2, 3} = insert (next_cloze_num {1, 2} False) {1, 2::int}"
    by (auto simp: next_cloze_num_def)
  have m: "{1, 2, 3} - {1, 2} = {3::int}"
    by auto
  have mn: "missing_names ''Field'' ({1, 2, 3} - {1, 2}) = [''Field3'']"
    unfolding m by (simp add: missing_names_def py_str_def)
  have prem: "get_cloze_nums ''((c1::a)) ((c2::b))'' = Inr {1, 2}
      \<and> {1, 2, 3} = insert (next_cloze_num {1, 2} False) {1, 2::int}
      \<and> ?F = flds (model ?n) \<and> ?fs = nfields ?n \<and> {1, 2, 3} - {1, 2} \<noteq> ({}::int set)"
    using g x m by simp
  from mp [OF t [THEN conjunct2, THEN conjunct2] prem] obtain ed' where
    r: "onCloze_fill mungeHTML False ?ed ?n ''Field'' ''((c1::a)) ((c2::b))'' = Inr (Handled, ed')"
    and ti: "tips ed' = tips ?ed @ [''Not enough cloze fields.  Missing: '' @
                           join_comma (missing_names ''Field'' ({1, 2, 3} - {1, 2}))]"
    by blast
  from ti have ti': "tips ed' = [''Not enough cloze fields.  Missing: Field3'']"
    unfolding mn by simp
  from r ti' have ex: "\<exists>ed'. onCloze_fill mungeHTML False ?ed ?n ''Field'' ''((c1::a)) ((c2::b))''
        = Inr (Handled, ed') \<and> tips ed' = [''Not enough cloze fields.  Missing: Field3'']"
    by blast
  show ?thesis
    by (rule conjI [OF e conjI [OF t [THEN conjunct1] conjI [OF mn ex]]])
qed

section \<open>Properties of create-missing\<close>

lemma list_update_same: "xs ! i = v \<Longrightarrow> xs[i := v] = xs"
  by auto

lemma cmf_nomatch:
  "cloze_field_match b (fname f) = None \<Longrightarrow>
     create_missing_fields S b (f # rest) fs upd = create_missing_fields S b rest fs upd"
  by simp

lemma cmf_match:
  "cloze_field_match b (fname f) = Some g \<Longrightarrow>
     create_missing_fields S b (f # rest) fs upd =
       (if ford f < length fs then
          create_missing_fields S b rest
            (fs[ford f := (if int (digits_val g) \<in> S then ''1'' else [])])
            (upd \<or> fs ! ford f \<noteq> (if int (digits_val g) \<in> S then ''1'' else []))
        else Inl IndexError)"
  by (simp add: cloze_field_match_int Let_def list_update_same)

declare create_missing_fields.simps(2) [simp del]

lemma cmf_keep:
  assumes "\<forall>f\<in>set fl. ford f = i \<longrightarrow> cloze_field_match b (fname f) = None"
    "create_missing_fields S b fl fs upd = Inr (fs', upd')"
  shows "fs' ! i = fs ! i"
  using assms
proof (induction fl arbitrary: fs upd)
  case Nil
  then show ?case by simp
next
  case (Cons f rest)
  show ?case
  proof (cases "cloze_field_match b (fname f)")
    case None
    with Cons show ?thesis
      by (simp add: cmf_nomatch)
  next
    case (Some g)
    with Cons.prems have ne: "ford f \<noteq> i"
      by auto
    let ?fs = "fs[ford f := (if int (digits_val g) \<in> S then ''1'' else [])]"
    from Cons.prems(2) Some obtain u where
      run: "create_missing_fields S b rest ?fs u = Inr (fs', upd')"
      by (auto simp: cmf_match split: if_splits)
    have "\<forall>f\<in>set rest. ford f = i \<longrightarrow> cloze_field_match b (fname f) = None"
      using Cons.prems(1) by simp
    from Cons.IH [OF this run] ne show ?thesis
      by simp
  qed
qed

lemma cmf_length:
  "create_missing_fields S b fl fs upd = Inr (fs', upd') \<Longrightarrow> length fs' = length fs"
proof (induction fl arbitrary: fs upd)
  case Nil
  then show ?case by simp
next
  case (Cons f rest)
  show ?case
  proof (cases "cloze_field_match b (fname f)")
    case None
    with Cons show ?thesis
      by (simp add: cmf_nomatch)
  next
    case (Some g)
    let ?fs = "fs[ford f := (if int (digits_val g) \<in> S then ''1'' else [])]"
    from Cons.prems Some obtain u where
      "create_missing_fields S b rest ?fs u = Inr (fs', upd')"
      by (auto simp: cmf_match split: if_splits)
    from Cons.IH [OF this] show ?thesis
      by simp
  qed
qed

lemma cmf_in_range:
  assumes "create_missing_fields S b fl fs upd = Inr (fs', upd')" "f \<in> set fl"
    "cloze_field_match b (fname f) = Some g"
  shows "ford f < length fs"
  using assms
proof (induction fl arbitrary: fs upd)
  case Nil
  then show ?case by simp
next
  case (Cons h rest)
  show ?case
  proof (cases "cloze_field_match b (fname h)")
    case None
    with Cons show ?thesis
      by (auto simp: cmf_nomatch)
  next
    case (Some k)
    let ?fs = "fs[ford h := (if int (digits_val k) \<in> S then ''1'' else [])]"
    from Cons.prems(1) Some obtain u where r: "ford h < length fs" and
      run: "create_missing_fields S b rest ?fs u = Inr (fs', upd')"
      by (auto simp: cmf_match split: if_splits)
    show ?thesis
    proof (cases "h = f")
      case True
      with r show ?thesis by simp
    next
      case False
      with Cons.prems(2) have "f \<in> set rest" by simp
      from Cons.IH [OF run this Cons.prems(3)] show ?thesis
        by simp
    qed
  qed
qed

lemma cmf_set:
  assumes "distinct (map ford fl)" "f \<in> set fl" "cloze_field_match b (fname f) = Some g"
    "create_missing_fields S b fl fs upd = Inr (fs', upd')"
  shows "fs' ! ford f = (if int (digits_val g) \<in> S then ''1'' else [])"
  using assms
proof (induction fl arbitrary: fs upd)
  case Nil
  then show ?case by simp
next
  case (Cons h rest)
  show ?case
  proof (cases "h = f")
    case True
    let ?fs = "fs[ford f := (if int (digits_val g) \<in> S then ''1'' else [])]"
    from Cons.prems True obtain u where r: "ford f < length fs" and
      run: "create_missing_fields S b rest ?fs u = Inr (fs', upd')"
      by (auto simp: cmf_match split: if_splits)
    have "\<forall>x\<in>set rest. ford x = ford f \<longrightarrow> cloze_field_match b (fname x) = None"
      using Cons.prems(1) True by (auto simp: image_iff)
    from cmf_keep [OF this run] r show ?thesis
      by simp
  next
    case False
    with Cons.prems have f: "f \<in> set rest" and ne: "ford h \<noteq> ford f"
      and d: "distinct (map ford rest)"
      by auto
    show ?thesis
    proof (cases "cloze_field_match b (fname h)")
      case None
      with Cons.prems(4) have "create_missing_fields S b rest fs upd = Inr (fs', upd')"
        by (simp add: cmf_nomatch)
      from Cons.IH [OF d f Cons.prems(3) this] show ?thesis .
    next
      case (Some k)
      let ?fs = "fs[ford h := (if int (digits_val k) \<in> S then ''1'' else [])]"
      from Cons.prems(4) Some obtain u where
        "create_missing_fields S b rest ?fs u = Inr (fs', upd')"
        by (auto simp: cmf_match split: if_splits)
      from Cons.IH [OF d f Cons.prems(3) this] show ?thesis .
    qed
  qed
qed

lemma cmf_total:
  "\<forall>f\<in>set fl. ford f < length fs \<Longrightarrow> \<exists>fs' upd'. create_missing_fields S b fl fs upd = Inr (fs', upd')"
proof (induction fl arbitrary: fs upd)
  case Nil
  then show ?case by simp
next
  case (Cons f rest)
  show ?case
  proof (cases "cloze_field_match b (fname f)")
    case None
    with Cons show ?thesis
      by (simp add: cmf_nomatch)
  next
    case (Some g)
    let ?fs = "fs[ford f := (if int (digits_val g) \<in> S then ''1'' else [])]"
    have "\<forall>f\<in>set rest. ford f < length ?fs"
      using Cons.prems by simp
    from Cons.IH [OF this] Cons.prems Some show ?thesis
      by (simp add: cmf_match)
  qed
qed

lemma cmf_fixed:
  assumes "\<forall>f\<in>set fl. \<forall>g. cloze_field_match b (fname f) = Some g \<longrightarrow>
             ford f < length fs \<and> fs ! ford f = (if int (digits_val g) \<in> S then ''1'' else [])"
  shows "create_missing_fields S b fl fs upd = Inr (fs, upd)"
  using assms
proof (induction fl)
  case Nil
  then show ?case by simp
next
  case (Cons f rest)
  show ?case
  proof (cases "cloze_field_match b (fname f)")
    case None
    with Cons show ?thesis
      by (simp add: cmf_nomatch)
  next
    case (Some g)
    with Cons.prems have r: "ford f < length fs"
      and v: "fs ! ford f = (if int (digits_val g) \<in> S then ''1'' else [])"
      by auto
    from v have "fs[ford f := (if int (digits_val g) \<in> S then ''1'' else [])] = fs"
      by (rule list_update_same)
    with Cons Some r v show ?thesis
      by (simp add: cmf_match)
  qed
qed

text \<open>
  Claim C6. The reconciliation of create-missing is idempotent: in a schema whose ordinals
  are distinct, when a run for an identifier set returns, a second run for the same
  identifier set on the field values the first run left returns them unchanged and
  reports no update.
\<close>

theorem create_missing_fields_idempotent:
  assumes "distinct (map ford model_flds)"
    "create_missing_fields cloze_nums field_name model_flds fs False = Inr (fs', updated)"
  shows "create_missing_fields cloze_nums field_name model_flds fs' False = Inr (fs', False)"
proof (rule cmf_fixed, intro ballI allI impI)
  fix f g
  assume f: "f \<in> set model_flds" and m: "cloze_field_match field_name (fname f) = Some g"
  from cmf_in_range [OF assms(2) f m] cmf_length [OF assms(2)] cmf_set [OF assms(1) f m assms(2)]
  show "ford f < length fs' \<and> fs' ! ford f = (if int (digits_val g) \<in> cloze_nums then ''1'' else [])"
    by simp
qed

theorem create_missing_fields_idempotent_witness:
  "create_missing_fields {1} ''ExpressionCloze''
     [\<lparr>fname = ''ExpressionCloze'', ford = 0\<rparr>, \<lparr>fname = ''ExpressionCloze1'', ford = 1\<rparr>,
      \<lparr>fname = ''ExpressionCloze2'', ford = 2\<rparr>]
     [''((c1::foo))'', [], ''custom text''] False
     = Inr ([''((c1::foo))'', ''1'', []], True)
   \<and> create_missing_fields {1} ''ExpressionCloze''
     [\<lparr>fname = ''ExpressionCloze'', ford = 0\<rparr>, \<lparr>fname = ''ExpressionCloze1'', ford = 1\<rparr>,
      \<lparr>fname = ''ExpressionCloze2'', ford = 2\<rparr>]
     [''((c1::foo))'', ''1'', []] False
     = Inr ([''((c1::foo))'', ''1'', []], False)"
proof -
  let ?F = "[\<lparr>fname = ''ExpressionCloze'', ford = 0\<rparr>, \<lparr>fname = ''ExpressionCloze1'', ford = 1\<rparr>,
      \<lparr>fname = ''ExpressionCloze2'', ford = 2\<rparr>]"
  have d: "distinct (map ford ?F)" by simp
  have e: "create_missing_fields {1} ''ExpressionCloze'' ?F
     [''((c1::foo))'', [], ''custom text''] False = Inr ([''((c1::foo))'', ''1'', []], True)"
    by code_simp
  from create_missing_fields_idempotent [OF d e] e show ?thesis
    by (rule_tac conjI)
qed

lemma endswith_Cloze_last:
  assumes "endswith s ''Cloze''"
  shows "s \<noteq> [] \<and> last s = CHR ''e''"
proof -
  have c: "length ''Cloze'' = 5"
    by simp
  from assms have l: "5 \<le> length s" and d: "drop (length s - 5) s = ''Cloze''"
    unfolding endswith_def c by blast+
  from l have n: "length s - 5 < length s" by simp
  have "last s = last (drop (length s - 5) s)"
    using n by simp
  also have "\<dots> = CHR ''e''"
    unfolding d by simp
  finally have "last s = CHR ''e''" .
  moreover from l have "s \<noteq> []"
    by auto
  ultimately show ?thesis
    by simp
qed

lemma match_not_Cloze:
  assumes "endswith nm ''Cloze''"
  shows "cloze_field_match b nm = None"
proof (cases "cloze_field_match b nm")
  case None
  then show ?thesis .
next
  case (Some g)
  then have g: "g \<noteq> []" "list_all is_digit g" and nm: "nm = b @ g \<or> nm = b @ g @ [newline]"
    by (simp_all add: cloze_field_match_iff)
  from g have "is_digit (last g)"
    by (auto simp: list_all_iff)
  then have "last g \<noteq> CHR ''e''"
    by (auto dest: is_digit_not_misc)
  moreover have "newline \<noteq> CHR ''e''"
    by (simp add: newline_def)
  ultimately show ?thesis
    using endswith_Cloze_last [OF assms] nm g(1) by auto
qed

lemma digits_suffix_unique:
  assumes "b @ g = b' @ g'" "list_all is_digit g" "list_all is_digit g'"
    "b \<noteq> []" "\<not> is_digit (last b)" "b' \<noteq> []" "\<not> is_digit (last b')"
  shows "b = b'"
proof -
  from assms(1) obtain us where
    "(b = b' @ us \<and> us @ g = g') \<or> (b @ us = b' \<and> g = us @ g')"
    unfolding append_eq_append_conv2 by blast
  then show ?thesis
  proof
    assume h: "b = b' @ us \<and> us @ g = g'"
    show ?thesis
    proof (cases "us = []")
      case True
      with h show ?thesis by simp
    next
      case False
      with h have "last b = last us" "last us \<in> set g'"
        by auto
      with assms(3,5) show ?thesis
        by (auto simp: list_all_iff)
    qed
  next
    assume h: "b @ us = b' \<and> g = us @ g'"
    show ?thesis
    proof (cases "us = []")
      case True
      with h show ?thesis by simp
    next
      case False
      with h have "last b' = last us" "last us \<in> set g"
        by auto
      with assms(2,7) show ?thesis
        by (auto simp: list_all_iff)
    qed
  qed
qed

lemma base_unique:
  assumes "cloze_field_match b nm = Some g" "cloze_field_match b' nm = Some g'"
    "endswith b ''Cloze''" "endswith b' ''Cloze''"
  shows "b = b'"
proof -
  from assms(1) have g: "g \<noteq> []" "list_all is_digit g"
    and nm: "nm = b @ g \<or> nm = b @ g @ [newline]"
    by (simp_all add: cloze_field_match_iff)
  from assms(2) have g': "g' \<noteq> []" "list_all is_digit g'"
    and nm': "nm = b' @ g' \<or> nm = b' @ g' @ [newline]"
    by (simp_all add: cloze_field_match_iff)
  have e: "\<not> is_digit (CHR ''e'')"
    by (simp add: is_digit_def)
  from endswith_Cloze_last [OF assms(3)] e have b: "b \<noteq> []" "\<not> is_digit (last b)"
    by simp_all
  from endswith_Cloze_last [OF assms(4)] e have b': "b' \<noteq> []" "\<not> is_digit (last b')"
    by simp_all
  from g have "is_digit (last g)"
    by (simp add: list_all_iff)
  then have lg: "last g \<noteq> newline"
    by (simp add: is_digit_not_misc)
  from g' have "is_digit (last g')"
    by (simp add: list_all_iff)
  then have lg': "last g' \<noteq> newline"
    by (simp add: is_digit_not_misc)
  have "b @ g = b' @ g'"
  proof -
    from nm nm' consider
        (plain) "nm = b @ g" "nm = b' @ g'"
      | (right) "nm = b @ g" "nm = b' @ g' @ [newline]"
      | (left) "nm = b @ g @ [newline]" "nm = b' @ g'"
      | (both) "nm = b @ g @ [newline]" "nm = b' @ g' @ [newline]"
      by blast
    then show ?thesis
    proof cases
      case plain
      from plain(1) [symmetric] plain(2) show ?thesis
        by (rule trans)
    next
      case right
      from right(1) [symmetric] right(2) have "b @ g = b' @ g' @ [newline]"
        by (rule trans)
      then have "last (b @ g) = last (b' @ g' @ [newline])"
        by (rule arg_cong)
      with g(1) lg show ?thesis
        by simp
    next
      case left
      from left(1) [symmetric] left(2) have "b @ g @ [newline] = b' @ g'"
        by (rule trans)
      then have "last (b @ g @ [newline]) = last (b' @ g')"
        by (rule arg_cong)
      with g'(1) lg' show ?thesis
        by simp
    next
      case both
      from both(1) [symmetric] both(2) have "b @ g @ [newline] = b' @ g' @ [newline]"
        by (rule trans)
      then have "(b @ g) @ [newline] = (b' @ g') @ [newline]"
        by (simp only: append_assoc)
      then show ?thesis
        by (simp only: append_same_eq)
    qed
  qed
  from digits_suffix_unique [OF this g(2) g'(2) b b'] show ?thesis .
qed

lemma cmn_notCloze:
  "\<not> endswith (fname f) ''Cloze'' \<Longrightarrow>
     create_missing_note fl i (f # rest) fs c e = create_missing_note fl i rest fs c e"
  by simp

lemma cmn_Cloze:
  assumes "endswith (fname f) ''Cloze''" "create_missing_note fl i (f # rest) fs c e = Inr R"
  shows "\<exists>S fs1 u c1 e1. ford f < length fs \<and> get_cloze_nums (fs ! ford f) = Inr S
           \<and> create_missing_fields S (fname f) fl fs False = Inr (fs1, u)
           \<and> create_missing_note fl i rest fs1 c1 e1 = Inr R"
proof -
  obtain S where S: "get_cloze_nums (fs ! ford f) = Inr S"
    using get_cloze_nums_total by blast
  from assms have r: "ford f < length fs"
    by (simp split: if_splits)
  show ?thesis
  proof (cases "create_missing_fields S (fname f) fl fs False")
    case (Inl x)
    with assms r S show ?thesis
      by simp
  next
    case (Inr p)
    obtain fs1 u where p: "p = (fs1, u)"
      by (cases p)
    show ?thesis
    proof (cases u)
      case True
      with assms r S Inr p
      have "create_missing_note fl i rest fs1 (c + 1) (e @ [Flush i fs1]) = Inr R"
        by simp
      with r S Inr p show ?thesis
        by blast
    next
      case False
      with assms r S Inr p have "create_missing_note fl i rest fs1 c e = Inr R"
        by simp
      with r S Inr p show ?thesis
        by blast
    qed
  qed
qed

lemma cmn_Cloze_total:
  assumes "endswith (fname f) ''Cloze''" "ford f < length fs"
    "create_missing_fields S (fname f) fl fs False = Inr (fs1, u)"
    "get_cloze_nums (fs ! ford f) = Inr S"
  shows "\<exists>c1 e1. create_missing_note fl i (f # rest) fs c e = create_missing_note fl i rest fs1 c1 e1"
proof (cases u)
  case True
  with assms have "create_missing_note fl i (f # rest) fs c e
      = create_missing_note fl i rest fs1 (c + 1) (e @ [Flush i fs1])"
    by simp
  then show ?thesis
    by blast
next
  case False
  with assms have "create_missing_note fl i (f # rest) fs c e
      = create_missing_note fl i rest fs1 c e"
    by simp
  then show ?thesis
    by blast
qed

declare create_missing_note.simps(2) [simp del]

lemma cmn_keep:
  assumes "\<forall>b\<in>set bs. endswith (fname b) ''Cloze'' \<longrightarrow>
             (\<forall>f\<in>set fl. ford f = k \<longrightarrow> cloze_field_match (fname b) (fname f) = None)"
    "create_missing_note fl i bs fs c e = Inr (fs', c', e')"
  shows "fs' ! k = fs ! k"
  using assms
proof (induction bs arbitrary: fs c e)
  case Nil
  then show ?case by simp
next
  case (Cons h rest)
  have r: "\<forall>b\<in>set rest. endswith (fname b) ''Cloze'' \<longrightarrow>
             (\<forall>f\<in>set fl. ford f = k \<longrightarrow> cloze_field_match (fname b) (fname f) = None)"
    using Cons.prems(1) by simp
  show ?case
  proof (cases "endswith (fname h) ''Cloze''")
    case False
    with Cons.prems(2) have "create_missing_note fl i rest fs c e = Inr (fs', c', e')"
      by (simp add: cmn_notCloze)
    from Cons.IH [OF r this] show ?thesis .
  next
    case True
    from cmn_Cloze [OF True Cons.prems(2)] obtain S fs1 u c1 e1 where
      f: "create_missing_fields S (fname h) fl fs False = Inr (fs1, u)"
      and run: "create_missing_note fl i rest fs1 c1 e1 = Inr (fs', c', e')"
      by blast
    have "\<forall>f\<in>set fl. ford f = k \<longrightarrow> cloze_field_match (fname h) (fname f) = None"
      using Cons.prems(1) True by simp
    from cmf_keep [OF this f] Cons.IH [OF r run] show ?thesis
      by simp
  qed
qed

lemma cmn_total:
  assumes "\<forall>f\<in>set fl. ford f < length fs" "set bs \<subseteq> set fl"
  shows "\<exists>fs' c' e'. create_missing_note fl i bs fs c e = Inr (fs', c', e')"
  using assms
proof (induction bs arbitrary: fs c e)
  case Nil
  then show ?case by simp
next
  case (Cons h rest)
  show ?case
  proof (cases "endswith (fname h) ''Cloze''")
    case False
    with Cons show ?thesis
      by (simp add: cmn_notCloze)
  next
    case True
    from Cons.prems have r: "ford h < length fs"
      by simp
    obtain S where S: "get_cloze_nums (fs ! ford h) = Inr S"
      using get_cloze_nums_total by blast
    from cmf_total [OF Cons.prems(1)] obtain fs1 u where
      f: "create_missing_fields S (fname h) fl fs False = Inr (fs1, u)"
      by blast
    from cmf_length [OF f] Cons.prems have "\<forall>f\<in>set fl. ford f < length fs1" "set rest \<subseteq> set fl"
      by simp_all
    from cmn_Cloze_total [OF True r f S, of i rest c e] obtain c1 e1 where
      "create_missing_note fl i (h # rest) fs c e = create_missing_note fl i rest fs1 c1 e1"
      by blast
    with Cons.IH [OF \<open>\<forall>f\<in>set fl. ford f < length fs1\<close> \<open>set rest \<subseteq> set fl\<close>, of c1 e1]
    show ?thesis
      by simp
  qed
qed

lemma cmn_main:
  assumes "distinct (map ford fl)" "distinct (map fname fl)" "set bs \<subseteq> set fl" "distinct bs"
    "b \<in> set bs" "endswith (fname b) ''Cloze''" "a \<in> set fl"
    "cloze_field_match (fname b) (fname a) = Some g"
    "get_cloze_nums (fs ! ford b) = Inr S"
    "create_missing_note fl i bs fs c e = Inr (fs', c', e')"
  shows "fs' ! ford a = (if int (digits_val g) \<in> S then ''1'' else [])"
  using assms(3,4,5,9,10)
proof (induction bs arbitrary: fs c e)
  case Nil
  then show ?case by simp
next
  case (Cons h rest)
  have io: "inj_on ford (set fl)" and iname: "inj_on fname (set fl)"
    using assms(1,2) by (simp_all add: distinct_map)
  from Cons.prems(1) have sub: "set rest \<subseteq> set fl" and hfl: "h \<in> set fl"
    by simp_all
  from Cons.prems(2) have dr: "distinct rest" and hn: "h \<notin> set rest"
    by simp_all
  show ?case
  proof (cases "h = b")
    case True
    from cmn_Cloze [OF assms(6) Cons.prems(5) [unfolded True]] Cons.prems(4)
    obtain fs1 u c1 e1 where
      f: "create_missing_fields S (fname b) fl fs False = Inr (fs1, u)"
      and run: "create_missing_note fl i rest fs1 c1 e1 = Inr (fs', c', e')"
      by auto
    have v: "fs1 ! ford a = (if int (digits_val g) \<in> S then ''1'' else [])"
      by (rule cmf_set [OF assms(1) assms(7) assms(8) f])
    have "\<forall>b'\<in>set rest. endswith (fname b') ''Cloze'' \<longrightarrow>
             (\<forall>f\<in>set fl. ford f = ford a \<longrightarrow> cloze_field_match (fname b') (fname f) = None)"
    proof (intro ballI impI)
      fix b' x
      assume b': "b' \<in> set rest" and cz: "endswith (fname b') ''Cloze''"
        and x: "x \<in> set fl" and o: "ford x = ford a"
      from io x assms(7) o have xa: "x = a"
        by (auto dest: inj_onD)
      show "cloze_field_match (fname b') (fname x) = None"
      proof (cases "cloze_field_match (fname b') (fname x)")
        case None
        then show ?thesis .
      next
        case (Some g')
        from base_unique [OF assms(8) Some [unfolded xa] assms(6) cz]
        have "fname b = fname b'" .
        moreover have "b \<in> set fl" "b' \<in> set fl"
          using hfl True b' sub by auto
        ultimately have "b = b'"
          using iname by (auto dest: inj_onD)
        with b' hn True show ?thesis
          by simp
      qed
    qed
    from cmn_keep [OF this run] v show ?thesis
      by simp
  next
    case False
    with Cons.prems(3) have brest: "b \<in> set rest"
      by simp
    with sub have bfl: "b \<in> set fl"
      by auto
    show ?thesis
    proof (cases "endswith (fname h) ''Cloze''")
      case nc: False
      with Cons.prems(5) have "create_missing_note fl i rest fs c e = Inr (fs', c', e')"
        by (simp add: cmn_notCloze)
      from Cons.IH [OF sub dr brest Cons.prems(4) this] show ?thesis .
    next
      case cz: True
      from cmn_Cloze [OF cz Cons.prems(5)] obtain T fs1 u c1 e1 where
        f: "create_missing_fields T (fname h) fl fs False = Inr (fs1, u)"
        and run: "create_missing_note fl i rest fs1 c1 e1 = Inr (fs', c', e')"
        by blast
      have "\<forall>x\<in>set fl. ford x = ford b \<longrightarrow> cloze_field_match (fname h) (fname x) = None"
      proof (intro ballI impI)
        fix x
        assume x: "x \<in> set fl" and o: "ford x = ford b"
        from io x bfl o have "x = b"
          by (auto dest: inj_onD)
        with match_not_Cloze [OF assms(6)] show "cloze_field_match (fname h) (fname x) = None"
          by simp
      qed
      from cmf_keep [OF this f] Cons.prems(4) have "get_cloze_nums (fs1 ! ford b) = Inr S"
        by simp
      from Cons.IH [OF sub dr brest this run] show ?thesis .
    qed
  qed
qed

text \<open>
  Claim C1. Take a schema whose names are distinct and whose ordinals are distinct and
  within the record. Create-missing on the record returns, and afterwards every auxiliary
  field, named as a field \<open>b\<close> whose name ends in Cloze followed by a digit run, holds
  \<open>1\<close> when the integer value of the digit run is among the identifiers scanned from the
  content of \<open>b\<close>, and the empty string otherwise.
\<close>

theorem create_missing_note_reconciles:
  assumes "distinct (map ford model_flds)" "distinct (map fname model_flds)"
    "\<forall>f\<in>set model_flds. ford f < length fs"
    "b \<in> set model_flds" "endswith (fname b) ''Cloze''"
    "a \<in> set model_flds" "cloze_field_match (fname b) (fname a) = Some g"
  shows "\<exists>S fs' update_count' evs'.
           get_cloze_nums (fs ! ford b) = Inr S
           \<and> create_missing_note model_flds i model_flds fs update_count evs
               = Inr (fs', update_count', evs')
           \<and> fs' ! ford a = (if int (digits_val g) \<in> S then ''1'' else [])"
proof -
  obtain S where S: "get_cloze_nums (fs ! ford b) = Inr S"
    using get_cloze_nums_total by blast
  from cmn_total [OF assms(3), of model_flds i update_count evs] obtain fs' c' e' where
    run: "create_missing_note model_flds i model_flds fs update_count evs = Inr (fs', c', e')"
    by auto
  have d: "distinct model_flds"
    using assms(1) by (simp add: distinct_map)
  from cmn_main [OF assms(1,2) subset_refl d assms(4,5,6,7) S run] S run show ?thesis
    by blast
qed

theorem create_missing_note_reconciles_witness:
  "create_missing_note
     [\<lparr>fname = ''ExpressionCloze'', ford = 0\<rparr>, \<lparr>fname = ''ExpressionCloze1'', ford = 1\<rparr>,
      \<lparr>fname = ''ExpressionCloze2'', ford = 2\<rparr>] 7
     [\<lparr>fname = ''ExpressionCloze'', ford = 0\<rparr>, \<lparr>fname = ''ExpressionCloze1'', ford = 1\<rparr>,
      \<lparr>fname = ''ExpressionCloze2'', ford = 2\<rparr>]
     [''((c1::foo))'', [], ''custom text''] 0 []
     = Inr ([''((c1::foo))'', ''1'', []], 1, [Flush 7 [''((c1::foo))'', ''1'', []]])
   \<and> (\<exists>S fs' update_count' evs'.
         get_cloze_nums ([''((c1::foo))'', [], ''custom text''] ! 0) = Inr S
         \<and> create_missing_note
              [\<lparr>fname = ''ExpressionCloze'', ford = 0\<rparr>, \<lparr>fname = ''ExpressionCloze1'', ford = 1\<rparr>,
               \<lparr>fname = ''ExpressionCloze2'', ford = 2\<rparr>] 7
              [\<lparr>fname = ''ExpressionCloze'', ford = 0\<rparr>, \<lparr>fname = ''ExpressionCloze1'', ford = 1\<rparr>,
               \<lparr>fname = ''ExpressionCloze2'', ford = 2\<rparr>]
              [''((c1::foo))'', [], ''custom text''] 0 []
             = Inr (fs', update_count', evs')
         \<and> fs' ! 2 = (if int (digits_val ''2'') \<in> S then ''1'' else []))"
proof -
  let ?b = "\<lparr>fname = ''ExpressionCloze'', ford = 0\<rparr>"
  let ?a = "\<lparr>fname = ''ExpressionCloze2'', ford = 2\<rparr>"
  let ?F = "[?b, \<lparr>fname = ''ExpressionCloze1'', ford = 1\<rparr>, ?a]"
  let ?fs = "[''((c1::foo))'', [], ''custom text'']"
  have d: "distinct (map ford ?F)" and n: "distinct (map fname ?F)"
    by simp_all
  have r: "\<forall>f\<in>set ?F. ford f < length ?fs"
    by simp
  have b: "?b \<in> set ?F" and a: "?a \<in> set ?F"
    by simp_all
  have c: "endswith (fname ?b) ''Cloze''"
    by code_simp
  have m: "cloze_field_match (fname ?b) (fname ?a) = Some ''2''"
    by code_simp
  have e: "create_missing_note ?F 7 ?F ?fs 0 []
     = Inr ([''((c1::foo))'', ''1'', []], 1, [Flush 7 [''((c1::foo))'', ''1'', []]])"
    by code_simp
  from create_missing_note_reconciles [OF d n r b c a m, of 7 0 "[]"]
  have "\<exists>S fs' update_count' evs'.
         get_cloze_nums (?fs ! 0) = Inr S
         \<and> create_missing_note ?F 7 ?F ?fs 0 [] = Inr (fs', update_count', evs')
         \<and> fs' ! 2 = (if int (digits_val ''2'') \<in> S then ''1'' else [])"
    by simp
  with e show ?thesis
    by (rule conjI)
qed

section \<open>Properties of the entry points\<close>

lemma onCloze_fill_web:
  assumes "get_cloze_nums content = Inr S"
    "onCloze_fill munge alt ed n name content = Inr (out, ed')"
  shows "\<exists>commands. web ed' = web ed @
           [Wrap (''((c'' @ py_str (next_cloze_num S alt) @ ''::'') ''))'' # commands]"
proof (cases "update_cloze_fields munge (insert (next_cloze_num S alt) S) name
                (flds (model n)) (nfields n)")
  case (Inl p)
  with assms show ?thesis
    by (simp add: onCloze_fill_def Let_def split: prod.splits)
next
  case (Inr p)
  obtain cmds found fs' where p: "p = (cmds, found, fs')"
    by (cases p)
  show ?thesis
  proof (cases "insert (next_cloze_num S alt) S - found \<noteq> {}")
    case True
    have "onCloze_fill munge alt ed n name content =
            Inr (Handled, ed\<lparr>ed_note := Some (n\<lparr>nfields := fs'\<rparr>),
                   web := web ed @ [Wrap (''((c'' @ py_str (next_cloze_num S alt) @ ''::'')
                                      ''))'' # cmds],
                   tips := tips ed @
                        [''Not enough cloze fields.  Missing: '' @
                           join_comma (missing_names name
                             (insert (next_cloze_num S alt) S - found))]\<rparr>)"
      apply (simp only: onCloze_fill_def Let_def assms(1) Inr p sum.case prod.case True if_True)
      apply simp
      done
    with assms(2) show ?thesis
      by auto
  next
    case False
    have "onCloze_fill munge alt ed n name content =
            Inr (Handled, ed\<lparr>ed_note := Some (n\<lparr>nfields := fs'\<rparr>),
                   web := web ed @ [Wrap (''((c'' @ py_str (next_cloze_num S alt) @ ''::'')
                                      ''))'' # cmds]\<rparr>)"
      apply (simp only: onCloze_fill_def Let_def assms(1) Inr p sum.case prod.case False if_False)
      apply simp
      done
    with assms(2) show ?thesis
      by auto
  qed
qed

text \<open>
  Claim C5. When \<open>onCloze\<close> handles a focused field that is not empty and whose name
  ends in Cloze, the first command it sends wraps the selection with the identifier
  \<open>max(S) + 1\<close> when the scanned set \<open>S\<close> is not empty and Alt is not held, with
  \<open>max(S)\<close> when \<open>S\<close> is not empty and Alt is held, and with 1 when \<open>S\<close> is empty.
\<close>

theorem onCloze_proposes_identifier:
  assumes "ed_note ed = Some n" "currentField ed = Some cf" "nfields n ! cf \<noteq> []"
    "endswith (fname (flds (model n) ! cf)) ''Cloze''"
    "get_cloze_nums (nfields n ! cf) = Inr S"
    "onCloze munge alt ed = Inr (Handled, ed')"
  shows "\<exists>commands. web ed' = web ed @
           [Wrap (''((c'' @ py_str (if S = {} then 1 else if alt then Max S else Max S + 1)
                    @ ''::'') ''))'' # commands]"
proof -
  from assms(1,6) obtain qfmt ts where q: "tmpls (model n) = qfmt # ts"
    by (cases "tmpls (model n)") (simp_all add: onCloze_def)
  from assms(1,2,6) q have
    "onCloze_fill munge alt ed n (fname (flds (model n) ! cf)) (nfields n ! cf)
       = Inr (Handled, ed')"
    using assms(3,4) by (simp add: onCloze_def Let_def split: if_splits)
  moreover have "next_cloze_num S alt = (if S = {} then 1 else if alt then Max S else Max S + 1)"
    by (simp add: next_cloze_num_def)
  ultimately show ?thesis
    using onCloze_fill_web [OF assms(5), of munge alt ed n "fname (flds (model n) ! cf)" Handled ed']
    by (simp only:)
qed

theorem onCloze_proposes_identifier_witness:
  "onCloze mungeHTML False
     \<lparr>ed_note = Some \<lparr>nid = 7, nfields = [''((c1::a)) ((c3::b)) c'', [], []],
          model = \<lparr>flds = [\<lparr>fname = ''TextCloze'', ford = 0\<rparr>, \<lparr>fname = ''TextCloze1'', ford = 1\<rparr>,
                            \<lparr>fname = ''TextCloze3'', ford = 2\<rparr>], tmpls = [''{{Text}}'']\<rparr>\<rparr>,
      currentField = Some 0, web = [], tips = []\<rparr>
   = Inr (Handled,
     \<lparr>ed_note = Some \<lparr>nid = 7, nfields = [''((c1::a)) ((c3::b)) c'', ''1'', ''1''],
          model = \<lparr>flds = [\<lparr>fname = ''TextCloze'', ford = 0\<rparr>, \<lparr>fname = ''TextCloze1'', ford = 1\<rparr>,
                            \<lparr>fname = ''TextCloze3'', ford = 2\<rparr>], tmpls = [''{{Text}}'']\<rparr>\<rparr>,
      currentField = Some 0,
      web = [[Wrap ''((c4::'' ''))'', SetHtml 1 ''1'', SetHtml 2 ''1'']],
      tips = [''Not enough cloze fields.  Missing: TextCloze4'']\<rparr>)
   \<and> (\<exists>commands. [[Wrap ''((c4::'' ''))'', SetHtml 1 ''1'', SetHtml 2 ''1'']]
          = [] @ [Wrap (''((c'' @ py_str (if {1, 3} = ({}::int set) then 1
                 else if False then Max {1, 3} else Max {1, 3} + 1) @ ''::'') ''))'' # commands])"
proof -
  let ?n = "\<lparr>nid = 7, nfields = [''((c1::a)) ((c3::b)) c'', [], []],
          model = \<lparr>flds = [\<lparr>fname = ''TextCloze'', ford = 0\<rparr>, \<lparr>fname = ''TextCloze1'', ford = 1\<rparr>,
                            \<lparr>fname = ''TextCloze3'', ford = 2\<rparr>], tmpls = [''{{Text}}'']\<rparr>\<rparr>"
  let ?ed = "\<lparr>ed_note = Some ?n, currentField = Some 0, web = [], tips = []\<rparr>"
  let ?ed' = "\<lparr>ed_note = Some \<lparr>nid = 7, nfields = [''((c1::a)) ((c3::b)) c'', ''1'', ''1''],
          model = \<lparr>flds = [\<lparr>fname = ''TextCloze'', ford = 0\<rparr>, \<lparr>fname = ''TextCloze1'', ford = 1\<rparr>,
                            \<lparr>fname = ''TextCloze3'', ford = 2\<rparr>], tmpls = [''{{Text}}'']\<rparr>\<rparr>,
      currentField = Some 0,
      web = [[Wrap ''((c4::'' ''))'', SetHtml 1 ''1'', SetHtml 2 ''1'']],
      tips = [''Not enough cloze fields.  Missing: TextCloze4'']\<rparr>"
  have a: "ed_note ?ed = Some ?n" and b: "currentField ?ed = Some 0"
    by simp_all
  have c: "nfields ?n ! 0 \<noteq> []"
    by simp
  have d: "endswith (fname (flds (model ?n) ! 0)) ''Cloze''"
    by code_simp
  have e: "get_cloze_nums (nfields ?n ! 0) = Inr {1, 3}"
    by code_simp
  have f: "onCloze mungeHTML False ?ed = Inr (Handled, ?ed')"
    by code_simp
  from onCloze_proposes_identifier [OF a b c d e f]
  have "\<exists>commands. web ?ed' = web ?ed @
           [Wrap (''((c'' @ py_str (if {1, 3} = ({}::int set) then 1
                 else if False then Max {1, 3} else Max {1, 3} + 1) @ ''::'') ''))'' # commands]" .
  then have "\<exists>commands. [[Wrap ''((c4::'' ''))'', SetHtml 1 ''1'', SetHtml 2 ''1'']]
          = [] @ [Wrap (''((c'' @ py_str (if {1, 3} = ({}::int set) then 1
                 else if False then Max {1, 3} else Max {1, 3} + 1) @ ''::'') ''))'' # commands]"
    by (simp only: Editor.simps)
  with f show ?thesis
    by (rule conjI)
qed

lemma next_cloze_num_examples:
  "next_cloze_num {} False = 1 \<and> next_cloze_num {} True = 1
   \<and> next_cloze_num {1, 3} False = 4 \<and> next_cloze_num {1, 3} True = 3"
  by (simp add: next_cloze_num_def)

lemma py_int_exn: "py_int s = Inl e \<Longrightarrow> e = ValueError"
  by (simp add: py_int_def Let_def split: if_splits)

lemma py_nth_exn: "py_nth xs i = Inl e \<Longrightarrow> e = IndexError"
  by (simp add: py_nth_def split: if_splits)

lemma ucf_loop_exn:
  "update_cloze_fields_loop munge S b fl fs cmds found = Inl (e, fs') \<Longrightarrow> e = IndexError"
proof (induction fl arbitrary: fs cmds found)
  case Nil
  then show ?case by simp
next
  case (Cons f rest)
  show ?case
  proof (cases "cloze_field_match b (fname f)")
    case None
    with Cons show ?thesis
      by (simp add: ucf_loop_nomatch)
  next
    case (Some g)
    with Cons show ?thesis
      by (auto simp: ucf_loop_match split: if_splits)
  qed
qed

lemma onBridgeCmd_try_exn:
  assumes "onBridgeCmd_try munge ed cmd = Inl (e, ed')"
  shows "e = ValueError \<or> e = IndexError"
proof -
  from assms obtain n where n: "ed_note ed = Some n"
    by (cases "ed_note ed") (simp_all add: onBridgeCmd_try_def)
  from assms n have sw: "startswith cmd ''blur:'' \<or> startswith cmd ''key:''"
    by (auto simp: onBridgeCmd_try_def split: if_splits)
  show ?thesis
  proof (cases "\<exists>a fi ni content. py_split (CHR '':'') 3 cmd = [a, fi, ni, content]")
    case False
    with assms n sw show ?thesis
      by (auto simp: onBridgeCmd_try_def split: list.splits)
  next
    case True
    then obtain a fi ni content where sp: "py_split (CHR '':'') 3 cmd = [a, fi, ni, content]"
      by blast
    show ?thesis
    proof (cases "py_int fi")
      case (Inl x)
      with assms n sw sp py_int_exn [OF Inl] show ?thesis
        by (simp add: onBridgeCmd_try_def)
    next
      case (Inr field_idx)
      show ?thesis
      proof (cases "py_nth (flds (model n)) field_idx")
        case (Inl x)
        with assms n sw sp Inr py_nth_exn [OF Inl] show ?thesis
          by (simp add: onBridgeCmd_try_def Let_def split: if_splits)
      next
        case f: (Inr f)
        obtain S where S: "get_cloze_nums content = Inr S"
          using get_cloze_nums_total by blast
        show ?thesis
        proof (cases "update_cloze_fields munge S (fname f) (flds (model n)) (nfields n)")
          case (Inl p)
          obtain x fs1 where p: "p = (x, fs1)"
            by (cases p)
          from Inl p have "x = IndexError"
            by (auto simp: update_cloze_fields_def dest: ucf_loop_exn)
          with assms n sw sp Inr f S Inl p show ?thesis
            by (simp add: onBridgeCmd_try_def Let_def split: if_splits)
        next
          case r: (Inr p)
          with assms n sw sp Inr f S show ?thesis
            by (simp add: onBridgeCmd_try_def Let_def split: if_splits prod.splits)
        qed
      qed
    qed
  qed
qed

text \<open>
  Claim C8. For every event, the body of the \<open>try\<close> either returns or raises a subclass
  of \<open>Exception\<close>, which the handler swallows; in both cases the host's handler runs on
  the editor as the body left it, and \<open>onBridgeCmd\<close> ends as the host's handler ends.
\<close>

theorem onBridgeCmd_swallows_and_calls_old:
  "\<exists>ed'. (onBridgeCmd_try munge ed cmd = Inr ed'
           \<or> (\<exists>e. is_Exception e \<and> onBridgeCmd_try munge ed cmd = Inl (e, ed')))
         \<and> onBridgeCmd munge old ed cmd = old ed' cmd"
proof (cases "onBridgeCmd_try munge ed cmd")
  case (Inr ed')
  then show ?thesis
    by (simp add: onBridgeCmd_def)
next
  case (Inl p)
  obtain e ed' where p: "p = (e, ed')"
    by (cases p)
  from onBridgeCmd_try_exn [OF Inl [unfolded p]] have x: "is_Exception e"
    by (auto simp: is_Exception_def)
  with Inl p have "onBridgeCmd munge old ed cmd = old ed' cmd"
    by (simp add: onBridgeCmd_def)
  with Inl p x show ?thesis
    by blast
qed

theorem onBridgeCmd_swallows_and_calls_old_witness:
  "onBridgeCmd_try mungeHTML
     \<lparr>ed_note = Some \<lparr>nid = 7, nfields = [''a''], model = \<lparr>flds = [\<lparr>fname = ''TextCloze'', ford = 0\<rparr>], tmpls = []\<rparr>\<rparr>,
      currentField = Some 0, web = [], tips = []\<rparr> ''blur:0''
     = Inl (ValueError,
         \<lparr>ed_note = Some \<lparr>nid = 7, nfields = [''a''], model = \<lparr>flds = [\<lparr>fname = ''TextCloze'', ford = 0\<rparr>], tmpls = []\<rparr>\<rparr>,
          currentField = Some 0, web = [], tips = []\<rparr>)
   \<and> onBridgeCmd mungeHTML (\<lambda>e c. Inr (e\<lparr>tips := tips e @ [c]\<rparr>))
     \<lparr>ed_note = Some \<lparr>nid = 7, nfields = [''a''], model = \<lparr>flds = [\<lparr>fname = ''TextCloze'', ford = 0\<rparr>], tmpls = []\<rparr>\<rparr>,
      currentField = Some 0, web = [], tips = []\<rparr> ''blur:0''
     = Inr \<lparr>ed_note = Some \<lparr>nid = 7, nfields = [''a''], model = \<lparr>flds = [\<lparr>fname = ''TextCloze'', ford = 0\<rparr>], tmpls = []\<rparr>\<rparr>,
      currentField = Some 0, web = [], tips = [''blur:0'']\<rparr>"
proof -
  let ?ed = "\<lparr>ed_note = Some \<lparr>nid = 7, nfields = [''a''], model = \<lparr>flds = [\<lparr>fname = ''TextCloze'', ford = 0\<rparr>], tmpls = []\<rparr>\<rparr>,
      currentField = Some 0, web = [], tips = []\<rparr>"
  let ?old = "\<lambda>e c. Inr (e\<lparr>tips := tips e @ [c]\<rparr>) :: (exn \<times> Editor) + Editor"
  have t: "onBridgeCmd_try mungeHTML ?ed ''blur:0'' = Inl (ValueError, ?ed)"
    by code_simp
  from onBridgeCmd_swallows_and_calls_old [of mungeHTML ?ed "''blur:0''" ?old] obtain ed' where
    a: "onBridgeCmd_try mungeHTML ?ed ''blur:0'' = Inr ed'
           \<or> (\<exists>e. is_Exception e \<and> onBridgeCmd_try mungeHTML ?ed ''blur:0'' = Inl (e, ed'))"
    and b: "onBridgeCmd mungeHTML ?old ?ed ''blur:0'' = ?old ed' ''blur:0''"
    by blast
  from a have "ed' = ?ed"
    unfolding t by simp
  with b have "onBridgeCmd mungeHTML ?old ?ed ''blur:0'' = Inr (?ed\<lparr>tips := tips ?ed @ [''blur:0'']\<rparr>)"
    by simp
  with t show ?thesis
    by simp
qed

text \<open>
  Claim C9 does not hold of the code: \<open>update_count\<close> is incremented inside the loop
  over the fields, once for every marker field that was changed, while the message counts
  notes. With one note selected whose model has two marker fields that both need an
  update, create-missing flushes the note twice and reports two updated notes, and so
  does auto-cloze.
\<close>

theorem create_missing_counts_marker_fields:
  "create_missing
     [\<lparr>nid = 7, nfields = [''((c1::a))'', [], ''((c1::b))'', []],
       model = \<lparr>flds = [\<lparr>fname = ''FrontCloze'', ford = 0\<rparr>, \<lparr>fname = ''FrontCloze1'', ford = 1\<rparr>,
                         \<lparr>fname = ''BackCloze'', ford = 2\<rparr>, \<lparr>fname = ''BackCloze1'', ford = 3\<rparr>],
                 tmpls = []\<rparr>\<rparr>]
   = ([Checkpoint ''Create Missing Cloze Cards (1 note)'', BeginReset,
       Flush 7 [''((c1::a))'', ''1'', ''((c1::b))'', []],
       Flush 7 [''((c1::a))'', ''1'', ''((c1::b))'', ''1''],
       RequireReset, Tooltip ''Updated 2 notes'', EndReset], None)
   \<and> auto_cloze
     [\<lparr>nid = 7, nfields = [''a'', [], [], ''b'', [], []],
       model = \<lparr>flds = [\<lparr>fname = ''Front'', ford = 0\<rparr>, \<lparr>fname = ''FrontCloze'', ford = 1\<rparr>,
                         \<lparr>fname = ''FrontCloze1'', ford = 2\<rparr>, \<lparr>fname = ''Back'', ford = 3\<rparr>,
                         \<lparr>fname = ''BackCloze'', ford = 4\<rparr>, \<lparr>fname = ''BackCloze1'', ford = 5\<rparr>],
                 tmpls = []\<rparr>\<rparr>]
   = ([Checkpoint ''Auto-cloze (1 note)'', BeginReset,
       Flush 7 [''a'', ''((c1::a))'', ''1'', ''b'', [], []],
       Flush 7 [''a'', ''((c1::a))'', ''1'', ''b'', ''((c1::b))'', ''1''],
       RequireReset, Tooltip ''Updated 2 notes'', EndReset], None)"
  by code_simp

end
